theory Spec2Isabelle
  imports Main "HOL-Library.List_Lexorder" "HOL-Library.Char_ord"
begin

section \<open>The graph ADT of \<^verbatim>\<open>Graph_ADT.py\<close>\<close>

text \<open>
  The class \<^verbatim>\<open>Graph\<close> keeps a dictionary \<^verbatim>\<open>adjacentList\<close> from a vertex to the list
  of its \<^verbatim>\<open>(neighbor, weight)\<close> pairs, and two flags. A Python dictionary keeps its keys
  in insertion order, and \<^verbatim>\<open>getVertices\<close> and \<^verbatim>\<open>dijkstra\<close> iterate over it, so the
  dictionary is an association list, read with \<^const>\<open>map_of\<close>. A weight is
  \<^verbatim>\<open>None\<close> or a value: \<open>'w option\<close>.

  The exceptions the code can raise are values: \<^verbatim>\<open>ValueError\<close> is raised by
  \<^verbatim>\<open>addEdge\<close> (the spec's InvalidArgument), \<^verbatim>\<open>KeyError\<close> by a dictionary lookup
  \<^verbatim>\<open>d[k]\<close> of a missing key (the spec's NotFound), \<^verbatim>\<open>TypeError\<close> by arithmetic
  on \<^verbatim>\<open>None\<close> and by \<^verbatim>\<open><\<close> on two vertices that cannot be ordered, \<^verbatim>\<open>IndexError\<close>
  by \<^verbatim>\<open>xs[-1]\<close> on an empty list, \<^verbatim>\<open>OverflowError\<close> by the conversion to a float
  of an integer that is too large.
\<close>

datatype error = ValueError | KeyError | TypeError | IndexError | OverflowError

record ('v, 'w) graph =
  adjacentList :: "('v \<times> ('v \<times> 'w option) list) list"
  directed :: bool
  weighted :: bool

text \<open>\<^verbatim>\<open>__init__(self, directed=False, weighted=False)\<close>\<close>

definition Graph_init :: "bool \<Rightarrow> bool \<Rightarrow> ('v, 'w) graph" where
  "Graph_init d w = \<lparr>adjacentList = [], directed = d, weighted = w\<rparr>"

text \<open>\<^verbatim>\<open>vertex in self.adjacentList\<close>\<close>

definition has_vertex :: "('v, 'w) graph \<Rightarrow> 'v \<Rightarrow> bool" where
  "has_vertex g v = (map_of (adjacentList g) v \<noteq> None)"

text \<open>\<^verbatim>\<open>if vertex not in self.adjacentList: self.adjacentList[vertex] = []\<close>: a new key goes
  to the end of the dictionary.\<close>

definition addVertex :: "('v, 'w) graph \<Rightarrow> 'v \<Rightarrow> ('v, 'w) graph" where
  "addVertex g vertex =
     (if \<not> has_vertex g vertex
      then g\<lparr>adjacentList := adjacentList g @ [(vertex, [])]\<rparr>
      else g)"

text \<open>\<^verbatim>\<open>self.adjacentList[k].append(x)\<close>, for a key that is present: the list stored
  under the key grows at its end, the key keeps its place.\<close>

fun append_entry ::
  "'v \<Rightarrow> ('v \<times> 'w option) \<Rightarrow> ('v \<times> ('v \<times> 'w option) list) list
     \<Rightarrow> ('v \<times> ('v \<times> 'w option) list) list" where
  "append_entry k x [] = []"
| "append_entry k x ((k', ns) # al) =
     (if k' = k then (k', ns @ [x]) # al else (k', ns) # append_entry k x al)"

text \<open>
  \<^verbatim>\<open>addEdge(self, src, dest, weight=None)\<close>. The call mutates the graph and may raise
  afterwards, so the model returns the outcome (\<open>Inl ValueError\<close> or \<open>Inr ()\<close>) together
  with the graph as the call leaves it.
\<close>

definition addEdge ::
  "('v, 'w) graph \<Rightarrow> 'v \<Rightarrow> 'v \<Rightarrow> 'w option \<Rightarrow> (error + unit) \<times> ('v, 'w) graph" where
  "addEdge g src dest weight =
     (let g1 = (if \<not> has_vertex g src then addVertex g src else g);
          g2 = (if \<not> has_vertex g1 dest then addVertex g1 dest else g1)
      in if weighted g2 \<and> weight = None then (Inl ValueError, g2)
         else
           let weight' = (if \<not> weighted g2 then None else weight);
               g3 = g2\<lparr>adjacentList := append_entry src (dest, weight') (adjacentList g2)\<rparr>;
               g4 = (if \<not> directed g3
                     then g3\<lparr>adjacentList := append_entry dest (src, weight') (adjacentList g3)\<rparr>
                     else g3)
           in (Inr (), g4))"

text \<open>\<^verbatim>\<open>return list(self.adjacentList.keys())\<close>\<close>

definition getVertices :: "('v, 'w) graph \<Rightarrow> 'v list" where
  "getVertices g = map fst (adjacentList g)"

text \<open>\<^verbatim>\<open>return self.adjacentList[vertex]\<close>\<close>

definition getNeighbors :: "('v, 'w) graph \<Rightarrow> 'v \<Rightarrow> error + ('v \<times> 'w option) list" where
  "getNeighbors g vertex =
     (case map_of (adjacentList g) vertex of
        None \<Rightarrow> Inl KeyError
      | Some ns \<Rightarrow> Inr ns)"

text \<open>
  \<^verbatim>\<open>getWeight\<close>: the \<^verbatim>\<open>for\<close> loop returns the weight of the first pair whose neighbor
  is \<^verbatim>\<open>dest\<close>; when the loop ends the method returns \<^verbatim>\<open>None\<close> implicitly. The
  returned value is a stored weight or \<^verbatim>\<open>None\<close>, so it is an \<open>'w option\<close>.
\<close>

fun getWeight_scan :: "('v \<times> 'w option) list \<Rightarrow> 'v \<Rightarrow> 'w option" where
  "getWeight_scan [] dest = None"
| "getWeight_scan ((neighbor, weight) # rest) dest =
     (if neighbor = dest then weight else getWeight_scan rest dest)"

definition getWeight :: "('v, 'w) graph \<Rightarrow> 'v \<Rightarrow> 'v \<Rightarrow> error + 'w option" where
  "getWeight g src dest =
     (case map_of (adjacentList g) src of
        None \<Rightarrow> Inl KeyError
      | Some ns \<Rightarrow> Inr (getWeight_scan ns dest))"

subsection \<open>Sequences of mutating calls\<close>

text \<open>
  A graph object is only ever changed by \<^verbatim>\<open>addVertex\<close> and \<^verbatim>\<open>addEdge\<close>. A call of
  \<^verbatim>\<open>addEdge\<close> that raises still leaves its changes behind, and a caller that catches
  the exception goes on with the same object.
\<close>

datatype ('v, 'w) call = AddVertex 'v | AddEdge 'v 'v "'w option"

fun apply_call :: "('v, 'w) graph \<Rightarrow> ('v, 'w) call \<Rightarrow> ('v, 'w) graph" where
  "apply_call g (AddVertex v) = addVertex g v"
| "apply_call g (AddEdge s t w) = snd (addEdge g s t w)"

definition run_calls :: "('v, 'w) graph \<Rightarrow> ('v, 'w) call list \<Rightarrow> ('v, 'w) graph" where
  "run_calls g cs = foldl apply_call g cs"

text \<open>The stored edges: \<open>(u, v, w)\<close> for every pair \<open>(v, w)\<close> in the list of \<open>u\<close>.\<close>

definition edge_list :: "('v, 'w) graph \<Rightarrow> ('v \<times> 'v \<times> 'w option) list" where
  "edge_list g = concat (map (\<lambda>(u, ns). map (\<lambda>(v, w). (u, v, w)) ns) (adjacentList g))"

definition stored_edges :: "('v, 'w) graph \<Rightarrow> ('v \<times> 'v \<times> 'w option) set" where
  "stored_edges g = set (edge_list g)"

text \<open>Keys are distinct and every neighbor is a key.\<close>

definition wf_graph :: "('v, 'w) graph \<Rightarrow> bool" where
  "wf_graph g =
     (distinct (map fst (adjacentList g)) \<and>
      (\<forall>(u, v, w) \<in> stored_edges g. v \<in> set (getVertices g)))"

text \<open>The two \<^verbatim>\<open>addVertex\<close> calls at the head of \<^verbatim>\<open>addEdge\<close>.\<close>

definition add_ends :: "('v, 'w) graph \<Rightarrow> 'v \<Rightarrow> 'v \<Rightarrow> ('v, 'w) graph" where
  "add_ends g src dest = addVertex (addVertex g src) dest"

text \<open>Every stored weight is \<^verbatim>\<open>None\<close>: so it is in an unweighted graph.\<close>

definition no_weights :: "('v, 'w) graph \<Rightarrow> bool" where
  "no_weights g = (\<forall>u v x. (u, v, x) \<in> stored_edges g \<longrightarrow> x = None)"

section \<open>Breadth-first and depth-first search\<close>

text \<open>
  \<^verbatim>\<open>bfs(start)\<close>. One round of the \<^verbatim>\<open>while\<close> loop is one recursive call;
  \<^verbatim>\<open>queue.pop(0)\<close> takes the head of the list, and the \<^verbatim>\<open>for\<close> loop appends every
  neighbor of \<^verbatim>\<open>vertex\<close> to the queue.
\<close>

function bfs_loop :: "('v, 'w) graph \<Rightarrow> 'v list \<Rightarrow> 'v list \<Rightarrow> error + 'v list" where
  "bfs_loop g visited [] = Inr visited"
| "bfs_loop g visited (vertex # queue) =
     (if vertex \<notin> set visited
      then (case map_of (adjacentList g) vertex of
              None \<Rightarrow> Inl KeyError
            | Some ns \<Rightarrow> bfs_loop g (visited @ [vertex]) (queue @ map fst ns))
      else bfs_loop g visited queue)"
  by pat_completeness auto

definition bfs :: "('v, 'w) graph \<Rightarrow> 'v \<Rightarrow> error + 'v list" where
  "bfs g start = bfs_loop g [] [start]"

text \<open>
  The \<^verbatim>\<open>for\<close> loop of \<^verbatim>\<open>bfs_shortest_path\<close> and of \<^verbatim>\<open>dfs_shortest_path\<close>: every
  neighbor extends \<^verbatim>\<open>path\<close> to a \<^verbatim>\<open>new_path\<close>, which is appended to the queue (or stack);
  at the first neighbor equal to \<^verbatim>\<open>end\<close> the method returns \<^verbatim>\<open>new_path\<close>. \<open>Inl p\<close> is
  that return, \<open>Inr q\<close> the queue when the loop has run to its end.
\<close>

fun extend_path ::
  "'v list \<Rightarrow> 'v \<Rightarrow> ('v \<times> 'w option) list \<Rightarrow> 'v list list \<Rightarrow> 'v list + 'v list list" where
  "extend_path path end [] queue = Inr queue"
| "extend_path path end ((neighbor, weight) # rest) queue =
     (let new_path = path @ [neighbor];
          queue' = queue @ [new_path]
      in if neighbor = end then Inl new_path else extend_path path end rest queue')"

text \<open>
  \<^verbatim>\<open>bfs_shortest_path(start, end)\<close>: \<^verbatim>\<open>queue.pop(0)\<close> takes the head of the list;
  \<^verbatim>\<open>path[-1]\<close> raises \<^verbatim>\<open>IndexError\<close> on an empty path; falling out of the \<^verbatim>\<open>while\<close>
  loop returns \<^verbatim>\<open>None\<close>.
\<close>

function bfs_shortest_path_loop ::
  "('v, 'w) graph \<Rightarrow> 'v \<Rightarrow> 'v list \<Rightarrow> 'v list list \<Rightarrow> error + 'v list option" where
  "bfs_shortest_path_loop g end visited [] = Inr None"
| "bfs_shortest_path_loop g end visited (path # queue) =
     (if path = [] then Inl IndexError
      else
        let vertex = last path
        in if vertex \<notin> set visited
           then (case map_of (adjacentList g) vertex of
                   None \<Rightarrow> Inl KeyError
                 | Some ns \<Rightarrow>
                     (case extend_path path end ns queue of
                        Inl new_path \<Rightarrow> Inr (Some new_path)
                      | Inr queue' \<Rightarrow>
                          bfs_shortest_path_loop g end (visited @ [vertex]) queue'))
           else bfs_shortest_path_loop g end visited queue)"
  by pat_completeness auto

definition bfs_shortest_path :: "('v, 'w) graph \<Rightarrow> 'v \<Rightarrow> 'v \<Rightarrow> error + 'v list option" where
  "bfs_shortest_path g start end = bfs_shortest_path_loop g end [] [[start]]"

text \<open>
  \<^verbatim>\<open>dfs_shortest_path(start, end)\<close>: the same loop on a stack. \<^verbatim>\<open>stack.pop()\<close> takes the
  last element of the list, and \<^verbatim>\<open>stack.append\<close> adds at that end.
\<close>

function dfs_shortest_path_loop ::
  "('v, 'w) graph \<Rightarrow> 'v \<Rightarrow> 'v list \<Rightarrow> 'v list list \<Rightarrow> error + 'v list option" where
  "dfs_shortest_path_loop g end visited stack =
     (if stack = [] then Inr None
      else
        let path = last stack;
            stack1 = butlast stack
        in if path = [] then Inl IndexError
           else
             let vertex = last path
             in if vertex \<notin> set visited
                then (case map_of (adjacentList g) vertex of
                        None \<Rightarrow> Inl KeyError
                      | Some ns \<Rightarrow>
                          (case extend_path path end ns stack1 of
                             Inl new_path \<Rightarrow> Inr (Some new_path)
                           | Inr stack2 \<Rightarrow>
                               dfs_shortest_path_loop g end (visited @ [vertex]) stack2))
                else dfs_shortest_path_loop g end visited stack1)"
  by pat_completeness auto

definition dfs_shortest_path :: "('v, 'w) graph \<Rightarrow> 'v \<Rightarrow> 'v \<Rightarrow> error + 'v list option" where
  "dfs_shortest_path g start end = dfs_shortest_path_loop g end [] [[start]]"

subsection \<open>Paths of a graph\<close>

text \<open>\<open>edge g u v\<close>: \<open>v\<close> is in the neighbor list of the known vertex \<open>u\<close>.\<close>

definition edge :: "('v, 'w) graph \<Rightarrow> 'v \<Rightarrow> 'v \<Rightarrow> bool" where
  "edge g u v =
     (case map_of (adjacentList g) u of
        None \<Rightarrow> False
      | Some ns \<Rightarrow> v \<in> set (map fst ns))"

text \<open>A path is a non-empty list of vertices, each joined to the next by an edge.\<close>

fun is_path :: "('v, 'w) graph \<Rightarrow> 'v list \<Rightarrow> bool" where
  "is_path g [] = False"
| "is_path g [v] = True"
| "is_path g (u # v # rest) = (edge g u v \<and> is_path g (v # rest))"

definition path_between :: "('v, 'w) graph \<Rightarrow> 'v \<Rightarrow> 'v \<Rightarrow> 'v list \<Rightarrow> bool" where
  "path_between g start end p = (is_path g p \<and> hd p = start \<and> last p = end)"

text \<open>The number of edges of a path.\<close>

definition edge_count :: "'v list \<Rightarrow> nat" where
  "edge_count p = length p - 1"

subsection \<open>The invariant of \<^verbatim>\<open>bfs_shortest_path\<close>\<close>

text \<open>
  The queue holds paths from \<open>start\<close>, in the order of their lengths, which differ by at
  most one; no visited vertex has an edge to \<open>end\<close>, and every neighbor of a visited vertex
  is visited or ends a queued path; the end of every path from \<open>start\<close> that is no longer
  than the head of the queue is visited or ends a queued path of the same length.
\<close>

definition bfs_inv ::
  "('v, 'w) graph \<Rightarrow> 'v \<Rightarrow> 'v \<Rightarrow> 'v list \<Rightarrow> 'v list list \<Rightarrow> bool" where
  "bfs_inv g start end visited queue =
     ((\<forall>q\<in>set queue. is_path g q \<and> hd q = start) \<and>
      sorted (map length queue) \<and>
      (\<forall>q\<in>set queue. length q \<le> Suc (length (hd queue))) \<and>
      (\<forall>v\<in>set visited. \<forall>w. edge g v w \<longrightarrow>
          w \<noteq> end \<and> (w \<in> set visited \<or> (\<exists>q\<in>set queue. last q = w))) \<and>
      (\<forall>p. is_path g p \<and> hd p = start \<and> queue \<noteq> [] \<and> length p \<le> length (hd queue) \<longrightarrow>
          last p \<in> set visited \<or> (\<exists>q\<in>set queue. length q = length p \<and> last q = last p)) \<and>
      (start \<in> set visited \<or> (\<exists>q\<in>set queue. last q = start)))"

text \<open>What \<^verbatim>\<open>bfs_shortest_path\<close> is to return: a path from \<open>start\<close> to \<open>end\<close> with at
  least one edge and no more vertices than any other such path, or \<^verbatim>\<open>None\<close> when there
  is no such path.\<close>

definition shortest_or_none ::
  "('v, 'w) graph \<Rightarrow> 'v \<Rightarrow> 'v \<Rightarrow> 'v list option \<Rightarrow> bool" where
  "shortest_or_none g start end res =
     (case res of
        None \<Rightarrow> \<not> (\<exists>p. path_between g start end p \<and> 2 \<le> length p)
      | Some q \<Rightarrow>
          path_between g start end q \<and> 2 \<le> length q \<and>
          (\<forall>p. path_between g start end p \<and> 2 \<le> length p \<longrightarrow> length q \<le> length p))"

text \<open>A directed, unweighted example graph: 1 \<rightarrow> 2 \<rightarrow> 5, 1 \<rightarrow> 3 \<rightarrow> 4 \<rightarrow> 5, and the isolated vertex 9.\<close>

definition example_graph :: "(int, int) graph" where
  "example_graph = run_calls (Graph_init True False)
     [AddEdge 1 2 None, AddEdge 1 3 None, AddEdge 2 5 None, AddEdge 3 4 None,
      AddEdge 4 5 None, AddVertex 9]"

section \<open>Depth-first search with an avoided vertex\<close>

text \<open>
  \<^verbatim>\<open>dfs(start, end, avoid)\<close>. The dictionary \<^verbatim>\<open>path\<close> maps a discovered vertex to the
  vertex it was discovered from, and \<^verbatim>\<open>start\<close> to \<^verbatim>\<open>None\<close>: a map to \<open>'v option\<close>.
  The \<^verbatim>\<open>for\<close> loop skips \<^verbatim>\<open>avoid\<close>, records every neighbor that is not yet a key of
  \<^verbatim>\<open>path\<close> and pushes it.
\<close>

fun dfs_push ::
  "'v \<Rightarrow> 'v \<Rightarrow> ('v \<times> 'w option) list \<Rightarrow> ('v \<rightharpoonup> 'v option) \<Rightarrow> 'v list
     \<Rightarrow> ('v \<rightharpoonup> 'v option) \<times> 'v list" where
  "dfs_push vertex avoid [] path stack = (path, stack)"
| "dfs_push vertex avoid ((neighbor, weight) # rest) path stack =
     (if neighbor = avoid then dfs_push vertex avoid rest path stack
      else if path neighbor = None
           then dfs_push vertex avoid rest (path(neighbor \<mapsto> Some vertex)) (stack @ [neighbor])
           else dfs_push vertex avoid rest path stack)"

text \<open>The targets of the stored edges: a finite set that holds every vertex the search
  can push.\<close>

definition targets :: "('v, 'w) graph \<Rightarrow> 'v set" where
  "targets g = (\<lambda>(u, v, w). v) ` stored_edges g"

text \<open>
  The \<^verbatim>\<open>while stack\<close> loop: \<^verbatim>\<open>stack.pop()\<close> takes the last element; the loop ends at
  \<^verbatim>\<open>break\<close> when \<^verbatim>\<open>end\<close> is popped, or when the stack is empty. Its value is the
  dictionary \<^verbatim>\<open>path\<close>.
\<close>

function dfs_loop ::
  "('v, 'w) graph \<Rightarrow> 'v \<Rightarrow> 'v \<Rightarrow> ('v \<rightharpoonup> 'v option) \<Rightarrow> 'v list \<Rightarrow> error + ('v \<rightharpoonup> 'v option)" where
  "dfs_loop g end avoid path stack =
     (if stack = [] then Inr path
      else
        let vertex = last stack;
            stack1 = butlast stack
        in if vertex = end then Inr path
           else (case map_of (adjacentList g) vertex of
                   None \<Rightarrow> Inl KeyError
                 | Some ns \<Rightarrow>
                     (case dfs_push vertex avoid ns path stack1 of
                        (path', stack') \<Rightarrow> dfs_loop g end avoid path' stack')))"
  by pat_completeness auto

text \<open>
  The reconstruction loop \<^verbatim>\<open>while current != start: current = path[current];
  route.append(current)\<close>. It runs as long as the predecessors do not reach \<^verbatim>\<open>start\<close>, so
  it is a partial function: \<open>None\<close> is "does not return". \<^verbatim>\<open>path[current]\<close> raises
  \<^verbatim>\<open>KeyError\<close> on a missing key; a stored \<^verbatim>\<open>None\<close> would become \<^verbatim>\<open>current\<close>, which is
  not a key either.
\<close>

partial_function (option) dfs_route ::
  "('v \<rightharpoonup> 'v option) \<Rightarrow> 'v \<Rightarrow> 'v \<Rightarrow> 'v list \<Rightarrow> (error + 'v list) option" where
  "dfs_route path start current route =
     (if current \<noteq> start
      then (case path current of
              None \<Rightarrow> Some (Inl KeyError)
            | Some None \<Rightarrow> Some (Inl KeyError)
            | Some (Some previous) \<Rightarrow> dfs_route path start previous (route @ [previous]))
      else Some (Inr route))"

definition dfs :: "('v, 'w) graph \<Rightarrow> 'v \<Rightarrow> 'v \<Rightarrow> 'v \<Rightarrow> (error + 'v list) option" where
  "dfs g start end avoid =
     (case dfs_loop g end avoid [start \<mapsto> None] [start] of
        Inl e \<Rightarrow> Some (Inl e)
      | Inr path \<Rightarrow>
          if path end = None then Some (Inr [])
          else (case dfs_route path start end [end] of
                  None \<Rightarrow> None
                | Some (Inl e) \<Rightarrow> Some (Inl e)
                | Some (Inr route) \<Rightarrow> Some (Inr (rev route))))"

subsection \<open>The invariant of \<^verbatim>\<open>dfs\<close>\<close>

text \<open>\<open>chain path start v r\<close>: from \<open>v\<close> the predecessors recorded in \<open>path\<close> are the
  vertices \<open>r\<close>, the last of which is \<open>start\<close>.\<close>

inductive chain :: "('v \<rightharpoonup> 'v option) \<Rightarrow> 'v \<Rightarrow> 'v \<Rightarrow> 'v list \<Rightarrow> bool"
  for path :: "'v \<rightharpoonup> 'v option" and start :: 'v where
  chain_start: "chain path start start []"
| chain_step: "v \<noteq> start \<Longrightarrow> path v = Some (Some u) \<Longrightarrow> chain path start u r
     \<Longrightarrow> chain path start v (u # r)"


section \<open>Dijkstra's algorithm\<close>

text \<open>
  \<^verbatim>\<open>dijkstra(start, end)\<close>. A distance is a Python \<^verbatim>\<open>int\<close> or \<^verbatim>\<open>float("inf")\<close>; the
  weights are Python integers, as the docstring of \<^verbatim>\<open>addEdge\<close> says. The sum of two
  integers is exact. \<^verbatim>\<open>float("inf") + weight\<close> converts the integer to a float first:
  the sum is infinity when the weight rounds to a float, and the conversion raises
  \<^verbatim>\<open>OverflowError\<close> when it does not, that is from \<open>2 ^ 1024 - 2 ^ 970\<close> on in absolute
  value. Comparing an integer with infinity never raises: every integer is less than
  infinity.
\<close>

datatype distance = Finite int | Infinite

definition float_range :: "int \<Rightarrow> bool" where
  "float_range w = (\<bar>w\<bar> < 2 ^ 1024 - 2 ^ 970)"

fun dist_add :: "distance \<Rightarrow> int \<Rightarrow> error + distance" where
  "dist_add (Finite a) w = Inr (Finite (a + w))"
| "dist_add Infinite w = (if float_range w then Inr Infinite else Inl OverflowError)"

fun dist_less :: "distance \<Rightarrow> distance \<Rightarrow> bool" where
  "dist_less (Finite a) (Finite b) = (a < b)"
| "dist_less (Finite a) Infinite = True"
| "dist_less Infinite d = False"

subsection \<open>The priority queue: \<^verbatim>\<open>heapq\<close>\<close>

text \<open>
  The priority queue holds the lists \<^verbatim>\<open>[distance, vertex]\<close>, here pairs. Python compares
  two such lists by their first elements that differ: the distances when they are not
  equal, else the vertices when they are not equal; equal lists are not less. The
  comparison \<^verbatim>\<open><\<close> of two vertices raises \<^verbatim>\<open>TypeError\<close> when they cannot be ordered
  (a string and an integer). \<open>lt\<close> is the \<^verbatim>\<open><\<close> of the vertices: \<open>None\<close> when it raises.
\<close>

type_synonym 'v entry = "distance \<times> 'v"

fun entry_less :: "('v \<Rightarrow> 'v \<Rightarrow> bool option) \<Rightarrow> 'v entry \<Rightarrow> 'v entry \<Rightarrow> error + bool" where
  "entry_less lt (d1, v1) (d2, v2) =
     (if d1 \<noteq> d2 then Inr (dist_less d1 d2)
      else if v1 \<noteq> v2 then
        (case lt v1 v2 of
           None \<Rightarrow> Inl TypeError
         | Some r \<Rightarrow> Inr r)
      else Inr False)"

text \<open>The \<^verbatim>\<open><\<close> of integers and of strings never raises.\<close>

definition int_less :: "int \<Rightarrow> int \<Rightarrow> bool option" where
  "int_less a b = Some (a < b)"

definition str_less :: "string \<Rightarrow> string \<Rightarrow> bool option" where
  "str_less a b = Some (a < b)"

text \<open>
  The functions of \<^verbatim>\<open>heapq\<close> the method calls, after \<^verbatim>\<open>heapq.py\<close> of the standard
  library. They run on a list and move its elements by index; the positions they reach
  are inside the list. An exception raised by a comparison leaves the method, so the
  result is the exception or the new list.

  \<^verbatim>\<open>_siftdown(heap, startpos, pos)\<close>: \<^verbatim>\<open>newitem = heap[pos]\<close>, then the loop
  \<^verbatim>\<open>while pos > startpos\<close>, which moves the parents of \<^verbatim>\<open>newitem\<close> down as long as
  \<^verbatim>\<open>newitem < parent\<close>, then \<^verbatim>\<open>heap[pos] = newitem\<close>.
\<close>

function siftdown_loop ::
  "('v \<Rightarrow> 'v \<Rightarrow> bool option) \<Rightarrow> 'v entry list \<Rightarrow> nat \<Rightarrow> nat \<Rightarrow> 'v entry
     \<Rightarrow> error + 'v entry list" where
  "siftdown_loop lt heap startpos pos newitem =
     (if pos > startpos
      then
        (let parentpos = (pos - 1) div 2;
             parent = heap ! parentpos
         in (case entry_less lt newitem parent of
               Inl e \<Rightarrow> Inl e
             | Inr smaller \<Rightarrow>
                 if smaller
                 then siftdown_loop lt (heap[pos := parent]) startpos parentpos newitem
                 else Inr (heap[pos := newitem])))
      else Inr (heap[pos := newitem]))"
  by pat_completeness auto

definition siftdown ::
  "('v \<Rightarrow> 'v \<Rightarrow> bool option) \<Rightarrow> 'v entry list \<Rightarrow> nat \<Rightarrow> nat \<Rightarrow> error + 'v entry list" where
  "siftdown lt heap startpos pos = siftdown_loop lt heap startpos pos (heap ! pos)"

text \<open>
  \<^verbatim>\<open>_siftup(heap, pos)\<close>: the loop \<^verbatim>\<open>while childpos < endpos\<close> with
  \<^verbatim>\<open>childpos = 2*pos + 1\<close> moves the smaller child up until a leaf is reached; the right
  child is taken when it exists and \<^verbatim>\<open>not heap[childpos] < heap[rightpos]\<close>. The loop
  gives the list and the position of the leaf. Then \<^verbatim>\<open>heap[pos] = newitem\<close> and
  \<^verbatim>\<open>_siftdown(heap, startpos, pos)\<close>.
\<close>

function siftup_loop ::
  "('v \<Rightarrow> 'v \<Rightarrow> bool option) \<Rightarrow> 'v entry list \<Rightarrow> nat \<Rightarrow> nat
     \<Rightarrow> error + ('v entry list \<times> nat)" where
  "siftup_loop lt heap endpos pos =
     (let childpos = 2 * pos + 1
      in if childpos < endpos
         then
           (let rightpos = childpos + 1
            in if rightpos < endpos
               then (case entry_less lt (heap ! childpos) (heap ! rightpos) of
                       Inl e \<Rightarrow> Inl e
                     | Inr smaller \<Rightarrow>
                         if \<not> smaller
                         then siftup_loop lt (heap[pos := heap ! rightpos]) endpos rightpos
                         else siftup_loop lt (heap[pos := heap ! childpos]) endpos childpos)
               else siftup_loop lt (heap[pos := heap ! childpos]) endpos childpos)
         else Inr (heap, pos))"
  by pat_completeness auto

definition siftup ::
  "('v \<Rightarrow> 'v \<Rightarrow> bool option) \<Rightarrow> 'v entry list \<Rightarrow> nat \<Rightarrow> error + 'v entry list" where
  "siftup lt heap startpos =
     (let newitem = heap ! startpos
      in (case siftup_loop lt heap (length heap) startpos of
            Inl e \<Rightarrow> Inl e
          | Inr (heap1, pos) \<Rightarrow> siftdown lt (heap1[pos := newitem]) startpos pos))"

text \<open>\<^verbatim>\<open>heappush(heap, item)\<close>: \<^verbatim>\<open>heap.append(item); _siftdown(heap, 0, len(heap)-1)\<close>\<close>

definition heappush ::
  "('v \<Rightarrow> 'v \<Rightarrow> bool option) \<Rightarrow> 'v entry list \<Rightarrow> 'v entry \<Rightarrow> error + 'v entry list" where
  "heappush lt heap item = siftdown lt (heap @ [item]) 0 (length (heap @ [item]) - 1)"

text \<open>
  \<^verbatim>\<open>heappop(heap)\<close>: \<^verbatim>\<open>lastelt = heap.pop()\<close> raises \<^verbatim>\<open>IndexError\<close> on an empty list;
  when the rest is not empty its first element is returned, after \<^verbatim>\<open>heap[0] = lastelt\<close>
  and \<^verbatim>\<open>_siftup(heap, 0)\<close>; else \<^verbatim>\<open>lastelt\<close> is returned. The value is the element
  returned and the list left.
\<close>

definition heappop ::
  "('v \<Rightarrow> 'v \<Rightarrow> bool option) \<Rightarrow> 'v entry list \<Rightarrow> error + ('v entry \<times> 'v entry list)" where
  "heappop lt heap =
     (if heap = [] then Inl IndexError
      else
        (let lastelt = last heap;
             heap1 = butlast heap
         in if heap1 \<noteq> []
            then
              (let returnitem = heap1 ! 0
               in (case siftup lt (heap1[0 := lastelt]) 0 of
                     Inl e \<Rightarrow> Inl e
                   | Inr heap2 \<Rightarrow> Inr (returnitem, heap2)))
            else Inr (lastelt, heap1)))"

text \<open>\<^verbatim>\<open>heapify(x)\<close>: \<^verbatim>\<open>for i in reversed(range(n//2)): _siftup(x, i)\<close>. The first
  argument of the loop is the number of positions still to do: the next one is
  \<open>i\<close> when it is \<open>Suc i\<close>.\<close>

fun heapify_loop ::
  "('v \<Rightarrow> 'v \<Rightarrow> bool option) \<Rightarrow> nat \<Rightarrow> 'v entry list \<Rightarrow> error + 'v entry list" where
  "heapify_loop lt 0 x = Inr x"
| "heapify_loop lt (Suc i) x =
     (case siftup lt x i of
        Inl e \<Rightarrow> Inl e
      | Inr x1 \<Rightarrow> heapify_loop lt i x1)"

definition heapify ::
  "('v \<Rightarrow> 'v \<Rightarrow> bool option) \<Rightarrow> 'v entry list \<Rightarrow> error + 'v entry list" where
  "heapify lt x = heapify_loop lt (length x div 2) x"

subsection \<open>The method\<close>

text \<open>\<^verbatim>\<open>for i in range(len(queue)): if queue[i][1] == neighbor: queue[i][0] = alternative;
  break\<close>\<close>

fun set_priority :: "'v \<Rightarrow> distance \<Rightarrow> 'v entry list \<Rightarrow> 'v entry list" where
  "set_priority neighbor alternative [] = []"
| "set_priority neighbor alternative ((d, v) # rest) =
     (if v = neighbor then (alternative, v) # rest
      else (d, v) # set_priority neighbor alternative rest)"

text \<open>The first loop: every key of \<^verbatim>\<open>adjacentList\<close>, in order, gets its distance, its
  queue entry, pushed with \<^verbatim>\<open>heappush\<close>, and the predecessor \<^verbatim>\<open>None\<close>.\<close>

type_synonym 'v dijkstra_state =
  "('v \<rightharpoonup> distance) \<times> ('v \<rightharpoonup> 'v option) \<times> 'v entry list"

fun dijkstra_init ::
  "('v \<Rightarrow> 'v \<Rightarrow> bool option) \<Rightarrow> 'v \<Rightarrow> 'v list \<Rightarrow> 'v dijkstra_state
     \<Rightarrow> error + 'v dijkstra_state" where
  "dijkstra_init lt start [] s = Inr s"
| "dijkstra_init lt start (vertex # rest) (distances, previous, queue) =
     (if vertex = start
      then (case heappush lt queue (Finite 0, vertex) of
              Inl e \<Rightarrow> Inl e
            | Inr queue1 \<Rightarrow>
                dijkstra_init lt start rest
                  (distances(vertex \<mapsto> Finite 0), previous(vertex \<mapsto> None), queue1))
      else (case heappush lt queue (Infinite, vertex) of
              Inl e \<Rightarrow> Inl e
            | Inr queue1 \<Rightarrow>
                dijkstra_init lt start rest
                  (distances(vertex \<mapsto> Infinite), previous(vertex \<mapsto> None), queue1)))"

text \<open>
  The relaxation loop over the neighbors of \<^verbatim>\<open>current\<close>. \<^verbatim>\<open>distances[current]\<close> and
  \<^verbatim>\<open>distances[neighbor]\<close> raise \<^verbatim>\<open>KeyError\<close> on a missing key,
  \<^verbatim>\<open>distances[current] + weight\<close> raises \<^verbatim>\<open>TypeError\<close> when the weight is \<^verbatim>\<open>None\<close>
  and \<^verbatim>\<open>OverflowError\<close> when the distance is infinity and the weight does not round to a
  float. After a distance is lowered the entry of the neighbor is updated and the queue
  is made a heap again with \<^verbatim>\<open>heapify\<close>.
\<close>

fun relax ::
  "('v \<Rightarrow> 'v \<Rightarrow> bool option) \<Rightarrow> 'v \<Rightarrow> ('v \<times> int option) list \<Rightarrow> 'v dijkstra_state
     \<Rightarrow> error + 'v dijkstra_state" where
  "relax lt current [] s = Inr s"
| "relax lt current ((neighbor, weight) # rest) (distances, previous, queue) =
     (case distances current of
        None \<Rightarrow> Inl KeyError
      | Some dc \<Rightarrow>
          (case weight of
             None \<Rightarrow> Inl TypeError
           | Some w \<Rightarrow>
               (case dist_add dc w of
                  Inl e \<Rightarrow> Inl e
                | Inr alternative \<Rightarrow>
                    (case distances neighbor of
                       None \<Rightarrow> Inl KeyError
                     | Some dn \<Rightarrow>
                         if dist_less alternative dn
                         then (case heapify lt (set_priority neighbor alternative queue) of
                                 Inl e \<Rightarrow> Inl e
                               | Inr queue1 \<Rightarrow>
                                   relax lt current rest
                                     (distances(neighbor \<mapsto> alternative),
                                      previous(neighbor \<mapsto> Some current), queue1))
                         else relax lt current rest (distances, previous, queue)))))"

text \<open>
  \<^verbatim>\<open>while previous[current]: path.append(current); current = previous[current]\<close>. The
  condition is the truth value of \<^verbatim>\<open>previous[current]\<close>: \<^verbatim>\<open>None\<close> is false, and a
  vertex is false when it is \<^verbatim>\<open>0\<close> or the empty string. \<open>truthy\<close> is the truth value
  of a vertex. The loop may run forever, so it is a partial function.
\<close>

definition truthy_int :: "int \<Rightarrow> bool" where
  "truthy_int n = (n \<noteq> 0)"

definition truthy_str :: "string \<Rightarrow> bool" where
  "truthy_str s = (s \<noteq> [])"

partial_function (option) dijkstra_walk ::
  "('v \<Rightarrow> bool) \<Rightarrow> ('v \<rightharpoonup> 'v option) \<Rightarrow> 'v \<Rightarrow> 'v list \<Rightarrow> (error + 'v list) option" where
  "dijkstra_walk truthy previous current path =
     (case previous current of
        None \<Rightarrow> Some (Inl KeyError)
      | Some None \<Rightarrow> Some (Inr path)
      | Some (Some p) \<Rightarrow>
          if truthy p then dijkstra_walk truthy previous p (path @ [current])
          else Some (Inr path))"

text \<open>
  The main loop. Its value is the list \<^verbatim>\<open>path\<close>: empty when the queue runs out, and what
  the walk along \<^verbatim>\<open>previous\<close> collects when \<^verbatim>\<open>end\<close> is popped.
\<close>

function dijkstra_loop ::
  "('v \<Rightarrow> bool) \<Rightarrow> ('v \<Rightarrow> 'v \<Rightarrow> bool option) \<Rightarrow> ('v, int) graph \<Rightarrow> 'v \<Rightarrow> 'v dijkstra_state
     \<Rightarrow> (error + 'v list) option" where
  "dijkstra_loop truthy lt g end (distances, previous, queue) =
     (if queue = [] then Some (Inr [])
      else
        (case heappop lt queue of
           Inl e \<Rightarrow> Some (Inl e)
         | Inr (entry, queue1) \<Rightarrow>
             let current = snd entry
             in if current = end then dijkstra_walk truthy previous current []
                else (case map_of (adjacentList g) current of
                        None \<Rightarrow> dijkstra_loop truthy lt g end (distances, previous, queue1)
                      | Some ns \<Rightarrow>
                          (case relax lt current ns (distances, previous, queue1) of
                             Inl e \<Rightarrow> Some (Inl e)
                           | Inr s \<Rightarrow> dijkstra_loop truthy lt g end s))))"
  by pat_completeness auto

text \<open>\<^verbatim>\<open>result = path[::-1]; result.insert(0, start); return result\<close>\<close>

definition dijkstra ::
  "('v \<Rightarrow> bool) \<Rightarrow> ('v \<Rightarrow> 'v \<Rightarrow> bool option) \<Rightarrow> ('v, int) graph \<Rightarrow> 'v \<Rightarrow> 'v
     \<Rightarrow> (error + 'v list) option" where
  "dijkstra truthy lt g start end =
     (case dijkstra_init lt start (getVertices g) (Map.empty, Map.empty, []) of
        Inl e \<Rightarrow> Some (Inl e)
      | Inr s \<Rightarrow>
          (case dijkstra_loop truthy lt g end s of
             None \<Rightarrow> None
           | Some (Inl e) \<Rightarrow> Some (Inl e)
           | Some (Inr path) \<Rightarrow> Some (Inr (start # rev path))))"

text \<open>The sum of the edge weights along a list of vertices, reading each weight with
  \<^verbatim>\<open>getWeight\<close>; \<open>None\<close> when two consecutive vertices are not joined by a weighted edge.\<close>

fun path_cost :: "('v, int) graph \<Rightarrow> 'v list \<Rightarrow> int option" where
  "path_cost g [] = Some 0"
| "path_cost g [v] = Some 0"
| "path_cost g (u # v # rest) =
     (case getWeight g u v of
        Inr (Some w) \<Rightarrow> map_option (\<lambda>c. w + c) (path_cost g (v # rest))
      | _ \<Rightarrow> None)"

subsection \<open>Weights, reachability and the invariant of \<^verbatim>\<open>dijkstra\<close>\<close>

text \<open>Every stored edge has a weight: so it is in a weighted graph built by
  \<^verbatim>\<open>addEdge\<close>.\<close>

definition has_weights :: "('v, 'w) graph \<Rightarrow> bool" where
  "has_weights g = (\<forall>(u, v, w) \<in> stored_edges g. w \<noteq> None)"

text \<open>Every stored weight rounds to a float.\<close>

definition float_weights :: "('v, int) graph \<Rightarrow> bool" where
  "float_weights g =
     (\<forall>(u, v, w) \<in> stored_edges g. case w of None \<Rightarrow> True | Some x \<Rightarrow> float_range x)"

text \<open>Any two of the vertices can be compared with \<^verbatim>\<open><\<close>.\<close>

definition orderable :: "('v \<Rightarrow> 'v \<Rightarrow> bool option) \<Rightarrow> 'v set \<Rightarrow> bool" where
  "orderable lt V = (\<forall>u\<in>V. \<forall>v\<in>V. lt u v \<noteq> None)"

text \<open>\<open>linked g start v\<close>: \<open>start\<close> is a known vertex and a path leads from it to \<open>v\<close>.\<close>

definition linked :: "('v, 'w) graph \<Rightarrow> 'v \<Rightarrow> 'v \<Rightarrow> bool" where
  "linked g start v = (has_vertex g start \<and> (\<exists>p. path_between g start v p))"

text \<open>Only vertices linked to \<open>start\<close> get a finite distance or a predecessor.\<close>

definition dijkstra_inv ::
  "('v, 'w) graph \<Rightarrow> 'v \<Rightarrow> 'v dijkstra_state \<Rightarrow> bool" where
  "dijkstra_inv g start s =
     (case s of (D, P, Q) \<Rightarrow>
        dom D = set (getVertices g) \<and> dom P = set (getVertices g) \<and>
        snd ` set Q \<subseteq> set (getVertices g) \<and>
        (\<forall>v x. D v = Some (Finite x) \<longrightarrow> linked g start v) \<and>
        (\<forall>v u. P v = Some (Some u) \<longrightarrow> linked g start v))"

subsection \<open>The graphs of the examples\<close>

text \<open>The graph of the failing input: directed and weighted, with the edges
  1 \<rightarrow> 0 (1), 0 \<rightarrow> 3 (1), 3 \<rightarrow> 2 (1) and 1 \<rightarrow> 2 (10).\<close>

definition zero_vertex_graph :: "(int, int) graph" where
  "zero_vertex_graph = run_calls (Graph_init True True)
     [AddEdge 1 0 (Some 1), AddEdge 0 3 (Some 1), AddEdge 3 2 (Some 1), AddEdge 1 2 (Some 10)]"

text \<open>The graph of the scenario of the spec: A \<rightarrow> B (1), B \<rightarrow> C (2), A \<rightarrow> C (10).\<close>

definition abc_graph :: "(string, int) graph" where
  "abc_graph = run_calls (Graph_init True True)
     [AddEdge ''A'' ''B'' (Some 1), AddEdge ''B'' ''C'' (Some 2), AddEdge ''A'' ''C'' (Some 10)]"

text \<open>A weighted, directed graph in which 4 cannot be reached from 1: 1 \<rightarrow> 2 (1), 3 \<rightarrow> 4 (1).\<close>

definition split_graph :: "(int, int) graph" where
  "split_graph = run_calls (Graph_init True True) [AddEdge 1 2 (Some 1), AddEdge 3 4 (Some 1)]"

text \<open>Vertices of both kinds in one graph: integers and strings, which \<^verbatim>\<open><\<close> does not
  compare with each other.\<close>

datatype key = IntKey int | StrKey string

fun key_less :: "key \<Rightarrow> key \<Rightarrow> bool option" where
  "key_less (IntKey a) (IntKey b) = Some (a < b)"
| "key_less (StrKey a) (StrKey b) = Some (a < b)"
| "key_less (IntKey a) (StrKey b) = None"
| "key_less (StrKey a) (IntKey b) = None"

fun key_truthy :: "key \<Rightarrow> bool" where
  "key_truthy (IntKey n) = (n \<noteq> 0)"
| "key_truthy (StrKey s) = (s \<noteq> [])"

text \<open>A weighted graph with the vertices \<^verbatim>\<open>'A'\<close>, \<^verbatim>\<open>'B'\<close> and \<^verbatim>\<open>3\<close> and the edge
  A \<rightarrow> B (1).\<close>

definition mixed_graph :: "(key, int) graph" where
  "mixed_graph = run_calls (Graph_init True True)
     [AddEdge (StrKey ''A'') (StrKey ''B'') (Some 1), AddVertex (IntKey 3)]"

text \<open>A weighted graph with a weight beyond the floats: the vertices 1, 3, 4 and 9 and the
  edge 3 \<rightarrow> 4 (2 ^ 1024).\<close>

definition huge_graph :: "(int, int) graph" where
  "huge_graph = run_calls (Graph_init True True)
     [AddVertex 1, AddEdge 3 4 (Some (2 ^ 1024)), AddVertex 9]"

section \<open>Properties of the mutators and queries\<close>

lemma has_vertex_iff: "has_vertex g v \<longleftrightarrow> v \<in> set (getVertices g)"
  by (simp add: has_vertex_def getVertices_def map_of_eq_None_iff)

lemma map_of_append_entry:
  "map_of (append_entry k x al) =
     (map_of al)(k := map_option (\<lambda>ns. ns @ [x]) (map_of al k))"
  by (induction al) (auto simp: fun_eq_iff)

lemma keys_append_entry [simp]: "map fst (append_entry k x al) = map fst al"
  by (induction al) auto

lemma set_append_entry:
  "set (append_entry k x al) \<subseteq> set al \<union> {(k, ns @ [x]) | ns. (k, ns) \<in> set al}"
  by (induction k x al rule: append_entry.induct) (auto split: if_splits)

lemma stored_edges_iff:
  "(u, v, w) \<in> stored_edges g \<longleftrightarrow>
     (\<exists>ns. (u, ns) \<in> set (adjacentList g) \<and> (v, w) \<in> set ns)"
  by (auto simp: stored_edges_def edge_list_def)

lemma directed_addVertex [simp]: "directed (addVertex g v) = directed g"
  by (simp add: addVertex_def)

lemma weighted_addVertex [simp]: "weighted (addVertex g v) = weighted g"
  by (simp add: addVertex_def)

lemma getVertices_addVertex:
  "getVertices (addVertex g v) =
     (if v \<in> set (getVertices g) then getVertices g else getVertices g @ [v])"
  by (simp add: addVertex_def has_vertex_iff) (simp add: getVertices_def)

lemma stored_edges_addVertex [simp]: "stored_edges (addVertex g v) = stored_edges g"
  by (auto simp: addVertex_def stored_edges_def edge_list_def)

lemma addEdge_unfold:
  "addEdge g src dest weight =
     (if weighted g \<and> weight = None then (Inl ValueError, add_ends g src dest)
      else
        let weight' = (if weighted g then weight else None);
            al3 = append_entry src (dest, weight') (adjacentList (add_ends g src dest))
        in (Inr (), (add_ends g src dest)\<lparr>adjacentList :=
              (if directed g then al3 else append_entry dest (src, weight') al3)\<rparr>))"
  by (auto simp: addEdge_def add_ends_def Let_def addVertex_def)

lemma getVertices_add_ends:
  "set (getVertices (add_ends g s t)) = set (getVertices g) \<union> {s, t}"
  by (auto simp: add_ends_def getVertices_addVertex)

lemma stored_edges_add_ends [simp]: "stored_edges (add_ends g s t) = stored_edges g"
  by (simp add: add_ends_def)

lemma directed_add_ends [simp]: "directed (add_ends g s t) = directed g"
  by (simp add: add_ends_def)

lemma weighted_add_ends [simp]: "weighted (add_ends g s t) = weighted g"
  by (simp add: add_ends_def)

lemma distinct_addVertex:
  "distinct (getVertices g) \<Longrightarrow> distinct (getVertices (addVertex g v))"
  by (simp add: getVertices_addVertex)

lemma distinct_add_ends:
  "distinct (getVertices g) \<Longrightarrow> distinct (getVertices (add_ends g s t))"
  by (simp add: add_ends_def distinct_addVertex)

lemma map_of_addVertex:
  "map_of (adjacentList (addVertex g v)) =
     (if has_vertex g v then map_of (adjacentList g) else (map_of (adjacentList g))(v \<mapsto> []))"
  by (auto simp: addVertex_def has_vertex_def fun_eq_iff map_add_def split: option.splits)

lemma getNeighbors_addVertex:
  "getNeighbors (addVertex g v) x =
     (if x = v \<and> \<not> has_vertex g v then Inr [] else getNeighbors g x)"
  by (auto simp: getNeighbors_def map_of_addVertex has_vertex_def)

lemma has_vertex_addVertex: "has_vertex (addVertex g v) x \<longleftrightarrow> x = v \<or> has_vertex g x"
  by (auto simp: has_vertex_iff getVertices_addVertex)

lemma getNeighbors_add_ends:
  "getNeighbors (add_ends g s t) x =
     (if has_vertex g x then getNeighbors g x
      else if x = s \<or> x = t then Inr [] else Inl KeyError)"
  by (auto simp: add_ends_def getNeighbors_addVertex has_vertex_addVertex)
     (auto simp: getNeighbors_def has_vertex_def)

lemma edges_append_entry:
  "(u, ns) \<in> set (append_entry k x al) \<Longrightarrow> (v, w) \<in> set ns \<Longrightarrow>
     (\<exists>ns'. (u, ns') \<in> set al \<and> ((v, w) \<in> set ns' \<or> (u = k \<and> (v, w) = x)))"
  by (induction k x al rule: append_entry.induct) (auto split: if_splits)

lemma edges_append_entry_mono:
  "(u, ns) \<in> set al \<Longrightarrow> (v, w) \<in> set ns \<Longrightarrow>
     (\<exists>ns'. (u, ns') \<in> set (append_entry k x al) \<and> (v, w) \<in> set ns')"
  by (induction k x al rule: append_entry.induct) (auto split: if_splits)

lemma stored_edges_append_entry:
  "stored_edges (g\<lparr>adjacentList := append_entry k (v, w) (adjacentList g)\<rparr>)
     \<subseteq> insert (k, v, w) (stored_edges g)"
proof
  fix e assume e: "e \<in> stored_edges (g\<lparr>adjacentList := append_entry k (v, w) (adjacentList g)\<rparr>)"
  obtain a b c where [simp]: "e = (a, b, c)" by (cases e)
  from e obtain ns where "(a, ns) \<in> set (append_entry k (v, w) (adjacentList g))" "(b, c) \<in> set ns"
    by (auto simp: stored_edges_iff)
  from edges_append_entry[OF this]
  show "e \<in> insert (k, v, w) (stored_edges g)"
    by (auto simp: stored_edges_iff)
qed

lemma stored_edges_addEdge:
  "stored_edges (snd (addEdge g s t w)) \<subseteq>
     stored_edges g \<union> {(s, t, if weighted g then w else None), (t, s, if weighted g then w else None)}"
proof (cases "weighted g \<and> w = None")
  case True
  then show ?thesis by (auto simp: addEdge_unfold)
next
  case False
  let ?w = "if weighted g then w else None"
  let ?g3 = "(add_ends g s t)\<lparr>adjacentList := append_entry s (t, ?w) (adjacentList (add_ends g s t))\<rparr>"
  let ?g4 = "?g3\<lparr>adjacentList := append_entry t (s, ?w) (adjacentList ?g3)\<rparr>"
  have 3: "stored_edges ?g3 \<subseteq> insert (s, t, ?w) (stored_edges g)"
    using stored_edges_append_entry[where g = "add_ends g s t" and k = s and v = t and w = ?w] by simp
  have 4: "stored_edges ?g4 \<subseteq> insert (t, s, ?w) (stored_edges ?g3)"
    by (rule stored_edges_append_entry)
  have "snd (addEdge g s t w) = (if directed g then ?g3 else ?g4)"
    using False by (auto simp: addEdge_unfold Let_def)
  with 3 4 show ?thesis by (auto split: if_splits)
qed

lemma getVertices_snd_addEdge:
  "getVertices (snd (addEdge g s t w)) = getVertices (add_ends g s t)"
  by (simp add: addEdge_unfold Let_def getVertices_def)

lemma getVertices_addEdge:
  "set (getVertices (snd (addEdge g s t w))) = set (getVertices g) \<union> {s, t}"
  by (simp only: getVertices_snd_addEdge getVertices_add_ends)

lemma distinct_addEdge:
  "distinct (getVertices g) \<Longrightarrow> distinct (getVertices (snd (addEdge g s t w)))"
  by (simp only: getVertices_snd_addEdge distinct_add_ends)

lemma wf_graph_init: "wf_graph (Graph_init d w)"
  by (simp add: wf_graph_def Graph_init_def stored_edges_def edge_list_def)

lemma wf_graph_iff:
  "wf_graph g \<longleftrightarrow>
     distinct (getVertices g) \<and> (\<forall>u v w. (u, v, w) \<in> stored_edges g \<longrightarrow> v \<in> set (getVertices g))"
  by (auto simp: wf_graph_def getVertices_def)

lemma wf_graph_addVertex: "wf_graph g \<Longrightarrow> wf_graph (addVertex g v)"
  unfolding wf_graph_iff using distinct_addVertex[of g v]
  by (auto simp: getVertices_addVertex)

lemma wf_graph_addEdge:
  assumes "wf_graph g"
  shows "wf_graph (snd (addEdge g s t w))"
  unfolding wf_graph_iff
proof (intro conjI allI impI)
  show "distinct (getVertices (snd (addEdge g s t w)))"
    using assms distinct_addEdge[of g s t w] by (simp add: wf_graph_iff)
next
  fix u v x assume "(u, v, x) \<in> stored_edges (snd (addEdge g s t w))"
  then have "(u, v, x) \<in> stored_edges g \<or> (u, v) = (s, t) \<or> (u, v) = (t, s)"
    using stored_edges_addEdge[of g s t w] by auto
  then show "v \<in> set (getVertices (snd (addEdge g s t w)))"
    using assms by (auto simp: getVertices_addEdge wf_graph_iff)
qed

lemma wf_graph_apply_call: "wf_graph g \<Longrightarrow> wf_graph (apply_call g c)"
  by (cases c) (simp_all add: wf_graph_addVertex wf_graph_addEdge)

lemma wf_graph_run_calls: "wf_graph g \<Longrightarrow> wf_graph (run_calls g cs)"
  unfolding run_calls_def
  by (induction cs arbitrary: g) (simp_all add: wf_graph_apply_call)

lemma weighted_snd_addEdge [simp]: "weighted (snd (addEdge g s t w)) = weighted g"
  by (simp add: addEdge_unfold Let_def)

lemma directed_snd_addEdge [simp]: "directed (snd (addEdge g s t w)) = directed g"
  by (simp add: addEdge_unfold Let_def)

lemma weighted_apply_call [simp]: "weighted (apply_call g c) = weighted g"
  by (cases c) simp_all

lemma weighted_run_calls [simp]: "weighted (run_calls g cs) = weighted g"
  unfolding run_calls_def by (induction cs arbitrary: g) simp_all

lemma map_of_adjacentList:
  "distinct (getVertices g) \<Longrightarrow> (u, ns) \<in> set (adjacentList g) \<Longrightarrow>
     map_of (adjacentList g) u = Some ns"
  by (simp add: getVertices_def)

lemma getWeight_scan_Some: "getWeight_scan ns d = Some y \<Longrightarrow> (d, Some y) \<in> set ns"
  by (induction ns d rule: getWeight_scan.induct) (auto split: if_splits)

lemma getWeight_scan_find:
  "getWeight_scan ns d = (case find (\<lambda>(n, w). n = d) ns of None \<Rightarrow> None | Some (n, w) \<Rightarrow> w)"
  by (induction ns d rule: getWeight_scan.induct) auto

lemma no_weights_apply_call:
  assumes "\<not> weighted g" "no_weights g"
  shows "no_weights (apply_call g c)"
proof (cases c)
  case (AddVertex v)
  with assms show ?thesis by (simp add: no_weights_def)
next
  case (AddEdge s t w)
  with assms stored_edges_addEdge[of g s t w] show ?thesis
    by (auto simp: no_weights_def)
qed

lemma no_weights_run_calls:
  "\<not> weighted g \<Longrightarrow> no_weights g \<Longrightarrow> no_weights (run_calls g cs)"
  unfolding run_calls_def
  by (induction cs arbitrary: g) (simp_all add: no_weights_apply_call)

lemma no_weights_init: "no_weights (Graph_init d w)"
  by (simp add: no_weights_def Graph_init_def stored_edges_def edge_list_def)

lemma getWeight_no_weights:
  assumes "wf_graph g" "no_weights g" "(u, v, x) \<in> stored_edges g"
  shows "getWeight g u v = Inr None"
proof -
  from assms(3) obtain ns where ns: "(u, ns) \<in> set (adjacentList g)"
    by (auto simp: stored_edges_iff)
  with assms(1) have m: "map_of (adjacentList g) u = Some ns"
    by (simp add: map_of_adjacentList wf_graph_iff)
  have "getWeight_scan ns v = None"
  proof (cases "getWeight_scan ns v")
    case (Some y)
    then have "(u, v, Some y) \<in> stored_edges g"
      using ns getWeight_scan_Some[of ns v y] by (auto simp: stored_edges_iff)
    with assms(2) show ?thesis by (auto simp: no_weights_def)
  qed simp
  with m show ?thesis by (simp add: getWeight_def)
qed

subsection \<open>Claim C4: \<^verbatim>\<open>getWeight\<close>\<close>

text \<open>
  C4 as stated fails: \<^verbatim>\<open>getWeight\<close> reads \<^verbatim>\<open>self.adjacentList[src]\<close>, so an unknown
  \<^verbatim>\<open>src\<close> raises \<^verbatim>\<open>KeyError\<close>; the claim says it returns \<^verbatim>\<open>None\<close>. On the empty
  graph, \<^verbatim>\<open>getWeight(1, 2)\<close> raises.
\<close>

theorem getWeight_unknown_src_counterexample:
  "getWeight (Graph_init False False :: (int, int) graph) 1 2 = Inl KeyError"
  by (simp add: getWeight_def Graph_init_def)

text \<open>
  C4, amended: when \<^verbatim>\<open>src\<close> is a known vertex, \<^verbatim>\<open>getWeight(src, dest)\<close> returns the
  weight of the first entry of \<^verbatim>\<open>src\<close>'s neighbor list whose neighbor is \<^verbatim>\<open>dest\<close>, and
  \<^verbatim>\<open>None\<close> when the list has no such entry; when \<^verbatim>\<open>src\<close> is not a known vertex it raises
  \<^verbatim>\<open>KeyError\<close>.
\<close>

theorem getWeight_first_match:
  "(has_vertex g src \<longrightarrow>
      (\<exists>ns. getNeighbors g src = Inr ns \<and>
         getWeight g src dest =
           Inr (case find (\<lambda>(neighbor, weight). neighbor = dest) ns of
                  None \<Rightarrow> None
                | Some (neighbor, weight) \<Rightarrow> weight))) \<and>
   (\<not> has_vertex g src \<longrightarrow> getWeight g src dest = Inl KeyError)"
  by (auto simp: has_vertex_def getNeighbors_def getWeight_def getWeight_scan_find)

theorem getWeight_first_match_witness:
  "has_vertex (snd (addEdge (snd (addEdge (Graph_init True True) (1::int) 2 (Some (7::int)))) 1 2 (Some 9))) 1 \<and>
   getWeight (snd (addEdge (snd (addEdge (Graph_init True True) (1::int) 2 (Some (7::int)))) 1 2 (Some 9))) 1 2
     = Inr (Some 7) \<and>
   getWeight (snd (addEdge (snd (addEdge (Graph_init True True) (1::int) 2 (Some (7::int)))) 1 2 (Some 9))) 2 1
     = Inr None \<and>
   \<not> has_vertex (snd (addEdge (snd (addEdge (Graph_init True True) (1::int) 2 (Some (7::int)))) 1 2 (Some 9))) 3 \<and>
   getWeight (snd (addEdge (snd (addEdge (Graph_init True True) (1::int) 2 (Some (7::int)))) 1 2 (Some 9))) 3 1
     = Inl KeyError"
  using getWeight_first_match
    [of "snd (addEdge (snd (addEdge (Graph_init True True) (1::int) 2 (Some (7::int)))) 1 2 (Some 9))" 1 2]
    getWeight_first_match
    [of "snd (addEdge (snd (addEdge (Graph_init True True) (1::int) 2 (Some (7::int)))) 1 2 (Some 9))" 3 1]
  by (simp add: addEdge_def addVertex_def has_vertex_def Graph_init_def getNeighbors_def getWeight_def)

subsection \<open>Claim C9: the ends of every stored edge are vertices\<close>

text \<open>
  C9: after every sequence of \<^verbatim>\<open>addVertex\<close>/\<^verbatim>\<open>addEdge\<close> calls on a new graph (the
  calls of \<^verbatim>\<open>addEdge\<close> that raise included), the source and the target of every stored
  edge are in \<^verbatim>\<open>getVertices()\<close>.
\<close>

theorem edge_ends_are_vertices:
  "(u, v, x) \<in> stored_edges (run_calls (Graph_init d w) cs) \<Longrightarrow>
     u \<in> set (getVertices (run_calls (Graph_init d w) cs)) \<and>
     v \<in> set (getVertices (run_calls (Graph_init d w) cs))"
proof -
  assume e: "(u, v, x) \<in> stored_edges (run_calls (Graph_init d w) cs)"
  let ?g = "run_calls (Graph_init d w) cs"
  have "wf_graph ?g" by (simp add: wf_graph_run_calls wf_graph_init)
  with e have "v \<in> set (getVertices ?g)" by (auto simp: wf_graph_iff)
  moreover from e have "u \<in> set (getVertices ?g)"
    by (force simp: stored_edges_iff getVertices_def)
  ultimately show ?thesis by simp
qed

theorem edge_ends_are_vertices_witness:
  "(2, 4, None) \<in> stored_edges (run_calls (Graph_init True False :: (int, int) graph)
       [AddEdge 1 2 (Some 5), AddVertex 3, AddEdge 2 4 None]) \<and>
   2 \<in> set (getVertices (run_calls (Graph_init True False :: (int, int) graph)
       [AddEdge 1 2 (Some 5), AddVertex 3, AddEdge 2 4 None])) \<and>
   4 \<in> set (getVertices (run_calls (Graph_init True False :: (int, int) graph)
       [AddEdge 1 2 (Some 5), AddVertex 3, AddEdge 2 4 None]))"
proof -
  have h: "(2, 4, None) \<in> stored_edges (run_calls (Graph_init True False :: (int, int) graph)
       [AddEdge 1 2 (Some 5), AddVertex 3, AddEdge 2 4 None])"
    by code_simp
  show ?thesis using h edge_ends_are_vertices [OF h] by simp
qed

subsection \<open>Claim C10: \<^verbatim>\<open>addEdge\<close> without a weight on a weighted graph\<close>

text \<open>
  C10: on a weighted graph, \<^verbatim>\<open>addEdge(src, dest)\<close> without a weight raises
  \<^verbatim>\<open>ValueError\<close> after \<^verbatim>\<open>src\<close> and \<^verbatim>\<open>dest\<close> have been inserted as vertices (with
  empty neighbor lists, when they were absent). The graph it leaves is the one two calls of
  \<^verbatim>\<open>addVertex\<close> give: the stored edges are the same, the vertex set has grown by
  \<^verbatim>\<open>src\<close> and \<^verbatim>\<open>dest\<close>.
\<close>

theorem addEdge_raise_keeps_new_vertices:
  "weighted g \<Longrightarrow>
     addEdge g src dest None = (Inl ValueError, addVertex (addVertex g src) dest) \<and>
     edge_list (snd (addEdge g src dest None)) = edge_list g \<and>
     set (getVertices (snd (addEdge g src dest None))) = set (getVertices g) \<union> {src, dest} \<and>
     (\<forall>v. getNeighbors (snd (addEdge g src dest None)) v =
            (if has_vertex g v then getNeighbors g v
             else if v = src \<or> v = dest then Inr [] else Inl KeyError))"
  by (simp add: addEdge_unfold getVertices_add_ends getNeighbors_add_ends)
     (simp add: add_ends_def addVertex_def edge_list_def)

theorem addEdge_raise_keeps_new_vertices_witness:
  "weighted (Graph_init False True :: (int, int) graph) \<and>
   addEdge (Graph_init False True :: (int, int) graph) 1 2 None =
     (Inl ValueError, \<lparr>adjacentList = [(1, []), (2, [])], directed = False, weighted = True\<rparr>) \<and>
   getVertices (Graph_init False True :: (int, int) graph) = [] \<and>
   getVertices (snd (addEdge (Graph_init False True :: (int, int) graph) 1 2 None)) = [1, 2] \<and>
   edge_list (snd (addEdge (Graph_init False True :: (int, int) graph) 1 2 None)) = []"
  using addEdge_raise_keeps_new_vertices [of "Graph_init False True :: (int, int) graph" 1 2]
  by (simp add: Graph_init_def addVertex_def has_vertex_def getVertices_def edge_list_def)

lemma wf_graph_built: "wf_graph (run_calls (Graph_init d w) cs)"
  by (simp add: wf_graph_run_calls wf_graph_init)

lemma no_weights_built: "no_weights (run_calls (Graph_init d False) cs)"
  by (rule no_weights_run_calls) (simp_all add: no_weights_init, simp add: Graph_init_def)

subsection \<open>Claim C7: when \<^verbatim>\<open>addEdge\<close> raises, and the weights of an unweighted graph\<close>

text \<open>
  C7: \<^verbatim>\<open>addEdge\<close> raises \<^verbatim>\<open>ValueError\<close> exactly when the graph is weighted and the
  weight is \<^verbatim>\<open>None\<close> (and returns normally otherwise); on an unweighted graph the call
  does what the call without a weight does; and in an unweighted graph built by
  \<^verbatim>\<open>addVertex\<close>/\<^verbatim>\<open>addEdge\<close> calls every stored weight is \<^verbatim>\<open>None\<close> and \<^verbatim>\<open>getWeight\<close>
  returns \<^verbatim>\<open>None\<close> for every stored edge.
\<close>

theorem addEdge_weight_policy:
  "(fst (addEdge g s t wt) = Inl ValueError \<longleftrightarrow> weighted g \<and> wt = None) \<and>
   (fst (addEdge g s t wt) = Inr () \<longleftrightarrow> \<not> (weighted g \<and> wt = None)) \<and>
   (\<not> weighted g \<longrightarrow> addEdge g s t wt = addEdge g s t None) \<and>
   (\<forall>(u, v, x) \<in> stored_edges (run_calls (Graph_init d False) cs).
       x = None \<and> getWeight (run_calls (Graph_init d False) cs) u v = Inr None)"
proof (intro conjI)
  let ?g = "run_calls (Graph_init d False) cs"
  have nw: "no_weights ?g" by (rule no_weights_built)
  have wf: "wf_graph ?g" by (rule wf_graph_built)
  show "\<forall>(u, v, x) \<in> stored_edges ?g. x = None \<and> getWeight ?g u v = Inr None"
    using nw getWeight_no_weights[OF wf nw] by (auto simp: no_weights_def)
qed (auto simp: addEdge_unfold Let_def)

theorem addEdge_weight_policy_witness:
  "fst (addEdge (Graph_init True False :: (int, int) graph) 1 2 (Some 3)) = Inr () \<and>
   \<not> weighted (Graph_init True False :: (int, int) graph) \<and>
   addEdge (Graph_init True False :: (int, int) graph) 1 2 (Some 3) =
     addEdge (Graph_init True False) 1 2 None \<and>
   (1, 2, None) \<in> stored_edges
      (run_calls (Graph_init True False :: (int, int) graph) [AddEdge 1 2 (Some 3)]) \<and>
   getWeight (run_calls (Graph_init True False :: (int, int) graph) [AddEdge 1 2 (Some 3)]) 1 2
     = Inr None"
proof -
  let ?g = "Graph_init True False :: (int, int) graph"
  let ?G = "run_calls ?g [AddEdge 1 2 (Some 3)]"
  note T = addEdge_weight_policy [of ?g 1 2 "Some 3" True "[AddEdge 1 2 (Some 3)]"]
  have nw: "\<not> weighted ?g" by (simp add: Graph_init_def)
  have e: "(1, 2, None) \<in> stored_edges ?G" by code_simp
  from T have "\<forall>(u, v, x) \<in> stored_edges ?G. x = None \<and> getWeight ?G u v = Inr None"
    by blast
  with e have w: "getWeight ?G 1 2 = Inr None" by blast
  from T nw have "fst (addEdge ?g 1 2 (Some 3)) = Inr ()"
    and "addEdge ?g 1 2 (Some 3) = addEdge ?g 1 2 None"
    by blast+
  with nw e w show ?thesis by blast
qed

subsection \<open>Claim C8: the entries \<^verbatim>\<open>addEdge\<close> adds\<close>

text \<open>
  C8 as stated fails twice on a directed, unweighted graph at \<^verbatim>\<open>addEdge(1, 1, 5)\<close>: the
  call returns normally, the entry it stores is \<^verbatim>\<open>(1, None)\<close> and not \<^verbatim>\<open>(1, 5)\<close> (an
  unweighted graph discards the weight), and, the edge being a self-loop, the list of the
  target \<^verbatim>\<open>v = 1\<close> has gained an entry although the graph is directed.
\<close>

theorem addEdge_entries_counterexample:
  "directed (Graph_init True False :: (int, int) graph) \<and>
   fst (addEdge (Graph_init True False :: (int, int) graph) 1 1 (Some 5)) = Inr () \<and>
   getNeighbors (snd (addEdge (Graph_init True False :: (int, int) graph) 1 1 (Some 5))) 1
     = Inr [(1, None)]"
  by (simp add: addEdge_def addVertex_def has_vertex_def Graph_init_def getNeighbors_def Let_def)

text \<open>
  C8, amended: after a call \<^verbatim>\<open>addEdge(u, v, w)\<close> that returns normally,
  \<^verbatim>\<open>getNeighbors(u)\<close> contains the entry \<^verbatim>\<open>(v, w')\<close>, where the stored weight \<^verbatim>\<open>w'\<close> is
  \<^verbatim>\<open>w\<close> on a weighted graph and \<^verbatim>\<open>None\<close> on an unweighted one; if the graph is
  undirected, \<^verbatim>\<open>getNeighbors(v)\<close> also contains \<^verbatim>\<open>(u, w')\<close>; if the graph is directed and
  \<^verbatim>\<open>u\<close> and \<^verbatim>\<open>v\<close> differ, the call adds no entry to the list of \<^verbatim>\<open>v\<close> (it is the list
  \<^verbatim>\<open>v\<close> had, or the empty list of a new vertex).
\<close>

theorem addEdge_entries:
  "fst (addEdge g u v w) = Inr () \<Longrightarrow>
     (\<exists>ns. getNeighbors (snd (addEdge g u v w)) u = Inr ns \<and>
           (v, if weighted g then w else None) \<in> set ns) \<and>
     (\<not> directed g \<longrightarrow>
        (\<exists>ns. getNeighbors (snd (addEdge g u v w)) v = Inr ns \<and>
              (u, if weighted g then w else None) \<in> set ns)) \<and>
     (directed g \<and> u \<noteq> v \<longrightarrow>
        getNeighbors (snd (addEdge g u v w)) v =
          (if has_vertex g v then getNeighbors g v else Inr []))"
proof -
  assume ok: "fst (addEdge g u v w) = Inr ()"
  let ?w = "if weighted g then w else None"
  let ?g2 = "add_ends g u v"
  let ?al3 = "append_entry u (v, ?w) (adjacentList ?g2)"
  let ?al4 = "append_entry v (u, ?w) ?al3"
  from ok have nr: "\<not> (weighted g \<and> w = None)"
    by (auto simp: addEdge_unfold split: if_splits)
  then have al: "adjacentList (snd (addEdge g u v w)) = (if directed g then ?al3 else ?al4)"
    by (auto simp: addEdge_unfold Let_def)
  obtain nu where nu: "map_of (adjacentList ?g2) u = Some nu"
    using getNeighbors_add_ends[of g u v u]
    by (auto simp: getNeighbors_def has_vertex_def split: option.splits if_splits)
  obtain nv where nv: "map_of (adjacentList ?g2) v = Some nv"
    using getNeighbors_add_ends[of g u v v]
    by (auto simp: getNeighbors_def has_vertex_def split: option.splits if_splits)
  have 1: "\<exists>ns. getNeighbors (snd (addEdge g u v w)) u = Inr ns \<and> (v, ?w) \<in> set ns"
    using nu nv by (auto simp: getNeighbors_def al map_of_append_entry)
  have 2: "\<not> directed g \<longrightarrow>
      (\<exists>ns. getNeighbors (snd (addEdge g u v w)) v = Inr ns \<and> (u, ?w) \<in> set ns)"
    using nu nv by (auto simp: getNeighbors_def al map_of_append_entry)
  have 3: "directed g \<and> u \<noteq> v \<longrightarrow>
      getNeighbors (snd (addEdge g u v w)) v = (if has_vertex g v then getNeighbors g v else Inr [])"
    using getNeighbors_add_ends[of g u v v]
    by (auto simp: getNeighbors_def al map_of_append_entry)
  from 1 2 3 show ?thesis by blast
qed

theorem addEdge_entries_witness:
  "fst (addEdge (Graph_init False True :: (int, int) graph) 1 2 (Some 5)) = Inr () \<and>
   getNeighbors (snd (addEdge (Graph_init False True :: (int, int) graph) 1 2 (Some 5))) 1
     = Inr [(2, Some 5)] \<and>
   \<not> directed (Graph_init False True :: (int, int) graph) \<and>
   getNeighbors (snd (addEdge (Graph_init False True :: (int, int) graph) 1 2 (Some 5))) 2
     = Inr [(1, Some 5)] \<and>
   fst (addEdge (Graph_init True True :: (int, int) graph) 1 2 (Some 5)) = Inr () \<and>
   directed (Graph_init True True :: (int, int) graph) \<and>
   getNeighbors (snd (addEdge (Graph_init True True :: (int, int) graph) 1 2 (Some 5))) 2
     = Inr []"
proof -
  have a: "fst (addEdge (Graph_init False True :: (int, int) graph) 1 2 (Some 5)) = Inr ()"
    by (simp add: addEdge_def addVertex_def has_vertex_def Graph_init_def Let_def)
  have b: "fst (addEdge (Graph_init True True :: (int, int) graph) 1 2 (Some 5)) = Inr ()"
    by (simp add: addEdge_def addVertex_def has_vertex_def Graph_init_def Let_def)
  show ?thesis
    using a b addEdge_entries [OF a] addEdge_entries [OF b]
    by (simp add: addEdge_def addVertex_def has_vertex_def Graph_init_def getNeighbors_def Let_def)
qed

section \<open>Properties of the path searches\<close>

subsection \<open>Termination\<close>

lemma visit_decreases:
  assumes "vertex \<notin> set visited" "map_of (adjacentList g) vertex = Some ns"
  shows "card (set (getVertices g) - insert vertex (set visited))
           < card (set (getVertices g) - set visited)"
proof -
  from assms have "vertex \<in> set (getVertices g) - set visited"
    by (auto simp: getVertices_def dest: map_of_SomeD intro: rev_image_eqI)
  then have "card (set (getVertices g) - set visited - {vertex})
      < card (set (getVertices g) - set visited)"
    by (intro card_Diff1_less) auto
  moreover have "set (getVertices g) - insert vertex (set visited)
      = set (getVertices g) - set visited - {vertex}" by auto
  ultimately show ?thesis by simp
qed

termination bfs_loop
  by (relation "inv_image (less_than <*lex*> less_than)
        (\<lambda>(g, visited, queue). (card (set (getVertices g) - set visited), length queue))")
     (auto simp: visit_decreases)

termination bfs_shortest_path_loop
  by (relation "inv_image (less_than <*lex*> less_than)
        (\<lambda>(g, end, visited, queue). (card (set (getVertices g) - set visited), length queue))")
     (auto simp: visit_decreases)

termination dfs_shortest_path_loop
  by (relation "inv_image (less_than <*lex*> less_than)
        (\<lambda>(g, end, visited, stack). (card (set (getVertices g) - set visited), length stack))")
     (auto simp: visit_decreases)

declare dfs_shortest_path_loop.simps [simp del]

subsection \<open>Paths, and the correctness of \<^verbatim>\<open>bfs_shortest_path\<close>\<close>

lemma is_path_nonempty: "is_path g p \<Longrightarrow> p \<noteq> []"
  by (cases p) auto

lemma is_path_snoc:
  "is_path g (p @ [v]) \<longleftrightarrow> p = [] \<or> (is_path g p \<and> edge g (last p) v)"
  by (induction g p rule: is_path.induct) auto

lemma path_snocE:
  assumes "is_path g p" "2 \<le> length p"
  obtains p' w where "p = p' @ [w]" "is_path g p'" "edge g (last p') w" "hd p' = hd p"
proof -
  from assms obtain p' w where p: "p = p' @ [w]" and "p' \<noteq> []"
    by (cases p rule: rev_cases) (auto simp: Suc_le_eq)
  moreover from assms(1) p \<open>p' \<noteq> []\<close> have "is_path g p'" "edge g (last p') w"
    by (auto simp: is_path_snoc)
  moreover from p \<open>p' \<noteq> []\<close> have "hd p' = hd p" by simp
  ultimately show thesis using that by blast
qed

lemma edge_target_known:
  "wf_graph g \<Longrightarrow> edge g u v \<Longrightarrow> has_vertex g v"
  unfolding edge_def has_vertex_iff wf_graph_iff
  by (auto split: option.splits dest!: map_of_SomeD simp: stored_edges_iff) blast

lemma path_end_known:
  "wf_graph g \<Longrightarrow> is_path g p \<Longrightarrow> has_vertex g (hd p) \<Longrightarrow> has_vertex g (last p)"
  by (induction g p rule: is_path.induct) (auto dest: edge_target_known)

lemma closed_set_paths:
  assumes "\<And>v w. v \<in> V \<Longrightarrow> edge g v w \<Longrightarrow> w \<in> V"
  shows "is_path g p \<Longrightarrow> hd p \<in> V \<Longrightarrow> last p \<in> V"
  by (induction p rule: induct_list012) (auto dest: assms)

lemma extend_path_eq:
  "extend_path path end ns queue =
     (if end \<in> set (map fst ns) then Inl (path @ [end])
      else Inr (queue @ map (\<lambda>n. path @ [n]) (map fst ns)))"
  by (induction path "end" ns queue rule: extend_path.induct) (auto simp: Let_def)

lemma sorted_const_lengths: "\<forall>q\<in>set qs. length q = c \<Longrightarrow> sorted (map length qs)"
  by (induction qs) auto

lemma bfs_inv_step:
  assumes inv: "bfs_inv g start end visited (path # queue)"
    and V: "set visited \<subseteq> set visited'" "last path \<in> set visited'"
    and new: "\<forall>q\<in>set new. is_path g q \<and> hd q = start \<and> length q = Suc (length path)"
    and closed: "\<forall>v\<in>set visited'. \<forall>w. edge g v w \<longrightarrow>
          w \<noteq> end \<and> (w \<in> set visited' \<or> (\<exists>q\<in>set (queue @ new). last q = w))"
  shows "bfs_inv g start end visited' (queue @ new)"
proof -
  let ?k = "length path"
  let ?Q = "queue @ new"
  have A0: "is_path g path"
    using inv unfolding bfs_inv_def by simp
  have A1: "\<forall>q\<in>set queue. is_path g q \<and> hd q = start"
    using inv unfolding bfs_inv_def by simp
  have A2: "sorted (map length queue)" "\<forall>q\<in>set queue. ?k \<le> length q"
      "\<forall>q\<in>set queue. length q \<le> Suc ?k"
    using inv unfolding bfs_inv_def by simp_all
  have A5': "\<forall>p. is_path g p \<and> hd p = start \<and> length p \<le> ?k \<longrightarrow>
        last p \<in> set visited \<or> (\<exists>q\<in>set (path # queue). length q = length p \<and> last q = last p)"
    using inv unfolding bfs_inv_def by simp
  have A5: "last p \<in> set visited \<or> (\<exists>q\<in>set (path # queue). length q = length p \<and> last q = last p)"
    if "is_path g p" "hd p = start" "length p \<le> ?k" for p
    using A5' that by blast
  have A6: "start \<in> set visited \<or> (\<exists>q\<in>set (path # queue). last q = start)"
    using inv unfolding bfs_inv_def by simp
  have newP: "\<forall>q\<in>set new. is_path g q \<and> hd q = start"
    using new by blast
  have newL: "\<forall>q\<in>set new. length q = Suc ?k"
    using new by blast
  have QL: "length q \<le> Suc ?k" if "q \<in> set ?Q" for q
  proof (cases "q \<in> set queue")
    case True
    with A2(3) show ?thesis by blast
  next
    case False
    with that have "q \<in> set new" by simp
    with newL show ?thesis by simp
  qed
  have Qk: "?k \<le> length q" if "q \<in> set ?Q" for q
  proof (cases "q \<in> set queue")
    case True
    with A2(2) show ?thesis by blast
  next
    case False
    with that have "q \<in> set new" by simp
    with newL show ?thesis by simp
  qed
  have G1: "\<forall>q\<in>set ?Q. is_path g q \<and> hd q = start"
  proof
    fix q assume "q \<in> set ?Q"
    then have "q \<in> set queue \<or> q \<in> set new" by simp
    with A1 newP show "is_path g q \<and> hd q = start" by blast
  qed
  have "sorted (map length new)"
    using newL by (rule sorted_const_lengths)
  moreover have "\<forall>x\<in>set queue. \<forall>y\<in>set new. length x \<le> length y"
    using A2(3) newL by simp
  ultimately have G2a: "sorted (map length ?Q)"
    using A2(1) by (simp add: sorted_append)
  have G2b: "\<forall>q\<in>set ?Q. length q \<le> Suc (length (hd ?Q))"
  proof
    fix q assume q: "q \<in> set ?Q"
    then have "?Q \<noteq> []" by auto
    then have "hd ?Q \<in> set ?Q" by (rule hd_in_set)
    then have "?k \<le> length (hd ?Q)" by (rule Qk)
    moreover from q have "length q \<le> Suc ?k" by (rule QL)
    ultimately show "length q \<le> Suc (length (hd ?Q))" by simp
  qed
  have old: "last p \<in> set visited' \<or> (\<exists>q\<in>set ?Q. length q = length p \<and> last q = last p)"
    if p: "is_path g p" "hd p = start" "length p \<le> ?k" for p
  proof -
    from A5[OF p] consider "last p \<in> set visited"
      | "length path = length p \<and> last path = last p"
      | q where "q \<in> set queue" "length q = length p" "last q = last p"
      by auto
    then show ?thesis
    proof cases
      case 1
      with V(1) show ?thesis by blast
    next
      case 2
      with V(2) show ?thesis by simp
    next
      case 3
      then have "q \<in> set ?Q" by simp
      with 3 show ?thesis by blast
    qed
  qed
  have G5: "last p \<in> set visited' \<or> (\<exists>q\<in>set ?Q. length q = length p \<and> last q = last p)"
    if p: "is_path g p" "hd p = start" and ne: "?Q \<noteq> []" and len: "length p \<le> length (hd ?Q)" for p
  proof (cases "length p \<le> ?k")
    case True
    with p show ?thesis by (rule old)
  next
    case False
    have hdQ: "hd ?Q \<in> set ?Q" using ne by (rule hd_in_set)
    then have "length (hd ?Q) \<le> Suc ?k" by (rule QL)
    with False len have lp: "length p = Suc ?k" and lh: "length (hd ?Q) = Suc ?k" by simp_all
    have all: "length q = Suc ?k" if "q \<in> set ?Q" for q
    proof -
      obtain x xs where Q: "?Q = x # xs" using ne by (cases ?Q) auto
      with G2a have "\<forall>y\<in>set xs. length x \<le> length y" by simp
      with Q that have "length (hd ?Q) \<le> length q" by auto
      moreover from that have "length q \<le> Suc ?k" by (rule QL)
      ultimately show ?thesis using lh by simp
    qed
    from lp have "2 \<le> length p"
      using is_path_nonempty[OF A0] by (cases path) simp_all
    with p(1) obtain p' w where p': "p = p' @ [w]" "is_path g p'" "edge g (last p') w" "hd p' = hd p"
      by (rule path_snocE)
    with lp have lp': "length p' = ?k" by simp
    have "hd p' = start" using p'(4) p(2) by simp
    from old[OF p'(2) this] lp'
    have "last p' \<in> set visited' \<or> (\<exists>q\<in>set ?Q. length q = ?k \<and> last q = last p')" by simp
    moreover have "\<not> (\<exists>q\<in>set ?Q. length q = ?k \<and> last q = last p')"
      using all by fastforce
    ultimately have "last p' \<in> set visited'" by blast
    with closed p'(3) have "w \<in> set visited' \<or> (\<exists>q\<in>set ?Q. last q = w)" by blast
    moreover have "last p = w" using p'(1) by simp
    ultimately show ?thesis using all lp by metis
  qed
  have G6: "start \<in> set visited' \<or> (\<exists>q\<in>set ?Q. last q = start)"
  proof -
    from A6 consider "start \<in> set visited" | "last path = start"
      | q where "q \<in> set queue" "last q = start" by auto
    then show ?thesis
    proof cases
      case 1 with V(1) show ?thesis by blast
    next
      case 2 with V(2) show ?thesis by simp
    next
      case 3
      then have "q \<in> set ?Q" by simp
      with 3 show ?thesis by blast
    qed
  qed
  have G5': "\<forall>p. is_path g p \<and> hd p = start \<and> ?Q \<noteq> [] \<and> length p \<le> length (hd ?Q) \<longrightarrow>
          last p \<in> set visited' \<or> (\<exists>q\<in>set ?Q. length q = length p \<and> last q = last p)"
    using G5 by blast
  show ?thesis
    unfolding bfs_inv_def
    using G1 G2a G2b closed G5' G6 by (intro conjI)
qed

lemma bfs_inv_empty_no_path:
  assumes inv: "bfs_inv g start end visited []"
  shows "\<not> (\<exists>p. path_between g start end p \<and> 2 \<le> length p)"
proof
  assume "\<exists>p. path_between g start end p \<and> 2 \<le> length p"
  then obtain p where p: "is_path g p" "hd p = start" "last p = end" "2 \<le> length p"
    by (auto simp: path_between_def)
  from inv have st: "start \<in> set visited"
    and cl: "\<forall>v\<in>set visited. \<forall>w. edge g v w \<longrightarrow> w \<noteq> end \<and> w \<in> set visited"
    unfolding bfs_inv_def by simp_all
  from p(1,4) obtain p' w where p': "p = p' @ [w]" "is_path g p'" "edge g (last p') w" "hd p' = hd p"
    by (rule path_snocE)
  have "last p' \<in> set visited"
  proof (rule closed_set_paths[where V = "set visited" and g = g])
    show "is_path g p'" by (rule p'(2))
    show "hd p' \<in> set visited" using p'(4) p(2) st by simp
    show "\<And>v w. v \<in> set visited \<Longrightarrow> edge g v w \<Longrightarrow> w \<in> set visited" using cl by blast
  qed
  with cl p'(3) have "w \<noteq> end" by blast
  with p'(1) p(3) show False by simp
qed

lemma bfs_inv_found:
  assumes inv: "bfs_inv g start end visited (path # queue)"
    and e: "edge g (last path) end"
  shows "shortest_or_none g start end (Some (path @ [end]))"
proof -
  let ?k = "length path"
  have A0: "is_path g path" "hd path = start"
    using inv unfolding bfs_inv_def by simp_all
  then have ne: "path \<noteq> []" by (auto dest: is_path_nonempty)
  have A2: "\<forall>q\<in>set queue. ?k \<le> length q"
    using inv unfolding bfs_inv_def by simp
  have A3: "\<forall>v\<in>set visited. \<forall>w. edge g v w \<longrightarrow> w \<noteq> end"
    using inv unfolding bfs_inv_def by blast
  have A5: "\<forall>p. is_path g p \<and> hd p = start \<and> length p \<le> ?k \<longrightarrow>
        last p \<in> set visited \<or> (\<exists>q\<in>set (path # queue). length q = length p \<and> last q = last p)"
    using inv unfolding bfs_inv_def by simp
  have 1: "path_between g start end (path @ [end])"
    using A0 ne e by (simp add: path_between_def is_path_snoc)
  have 2: "2 \<le> length (path @ [end])" using ne by (cases path) simp_all
  have 3: "length (path @ [end]) \<le> length p" if p: "path_between g start end p" "2 \<le> length p" for p
  proof (rule ccontr)
    assume "\<not> length (path @ [end]) \<le> length p"
    then have lp: "length p \<le> ?k" by simp
    from p have pp: "is_path g p" "hd p = start" "last p = end"
      by (simp_all add: path_between_def)
    from pp(1) p(2) obtain p' w where
      p': "p = p' @ [w]" "is_path g p'" "edge g (last p') w" "hd p' = hd p"
      by (rule path_snocE)
    from p'(1) lp have l': "length p' < ?k" by simp
    have "is_path g p' \<and> hd p' = start \<and> length p' \<le> ?k"
      using p'(2,4) pp(2) l' by simp
    with A5
    have "last p' \<in> set visited \<or> (\<exists>q\<in>set (path # queue). length q = length p' \<and> last q = last p')"
      by blast
    moreover have "\<not> (\<exists>q\<in>set (path # queue). length q = length p' \<and> last q = last p')"
      using A2 l' by fastforce
    ultimately have "last p' \<in> set visited" by blast
    with A3 p'(3) have "w \<noteq> end" by blast
    with p'(1) pp(3) show False by simp
  qed
  from 1 2 3 show ?thesis by (simp add: shortest_or_none_def)
qed

lemma bfs_inv_skip:
  assumes inv: "bfs_inv g start end visited (path # queue)"
    and v: "last path \<in> set visited"
  shows "bfs_inv g start end visited queue"
proof -
  have A3: "\<forall>v\<in>set visited. \<forall>w. edge g v w \<longrightarrow>
          w \<noteq> end \<and> (w \<in> set visited \<or> (\<exists>q\<in>set (path # queue). last q = w))"
    using inv unfolding bfs_inv_def by blast
  have "bfs_inv g start end visited (queue @ [])"
  proof (rule bfs_inv_step[OF inv])
    show "set visited \<subseteq> set visited" by simp
    show "last path \<in> set visited" by (rule v)
    show "\<forall>q\<in>set []. is_path g q \<and> hd q = start \<and> length q = Suc (length path)" by simp
    show "\<forall>v\<in>set visited. \<forall>w. edge g v w \<longrightarrow>
        w \<noteq> end \<and> (w \<in> set visited \<or> (\<exists>q\<in>set (queue @ []). last q = w))"
      using A3 v by fastforce
  qed
  then show ?thesis by simp
qed

lemma bfs_inv_expand:
  assumes inv: "bfs_inv g start end visited (path # queue)"
    and ns: "map_of (adjacentList g) (last path) = Some ns"
    and e: "end \<notin> set (map fst ns)"
  shows "bfs_inv g start end (visited @ [last path]) (queue @ map (\<lambda>n. path @ [n]) (map fst ns))"
proof (rule bfs_inv_step[OF inv])
  let ?new = "map (\<lambda>n. path @ [n]) (map fst ns)"
  have A0: "is_path g path" "hd path = start"
    using inv unfolding bfs_inv_def by simp_all
  then have ne: "path \<noteq> []" by (auto dest: is_path_nonempty)
  have A3: "\<forall>v\<in>set visited. \<forall>w. edge g v w \<longrightarrow>
          w \<noteq> end \<and> (w \<in> set visited \<or> (\<exists>q\<in>set (path # queue). last q = w))"
    using inv unfolding bfs_inv_def by blast
  have edge_iff: "edge g (last path) w \<longleftrightarrow> w \<in> set (map fst ns)" for w
    using ns by (simp add: edge_def)
  show "set visited \<subseteq> set (visited @ [last path])" by auto
  show "last path \<in> set (visited @ [last path])" by simp
  show "\<forall>q\<in>set ?new. is_path g q \<and> hd q = start \<and> length q = Suc (length path)"
    using A0 ne edge_iff by (auto simp: is_path_snoc)
  show "\<forall>v\<in>set (visited @ [last path]). \<forall>w. edge g v w \<longrightarrow>
      w \<noteq> end \<and> (w \<in> set (visited @ [last path]) \<or> (\<exists>q\<in>set (queue @ ?new). last q = w))"
  proof (intro ballI allI impI)
    fix v w assume v: "v \<in> set (visited @ [last path])" and vw: "edge g v w"
    show "w \<noteq> end \<and> (w \<in> set (visited @ [last path]) \<or> (\<exists>q\<in>set (queue @ ?new). last q = w))"
    proof (cases "v \<in> set visited")
      case True
      with A3 vw have "w \<noteq> end" and "w \<in> set visited \<or> (\<exists>q\<in>set (path # queue). last q = w)"
        by blast+
      then show ?thesis by fastforce
    next
      case False
      with v have "v = last path" by simp
      with vw edge_iff have w: "w \<in> set (map fst ns)" by simp
      with e have "w \<noteq> end" by blast
      moreover from w have "path @ [w] \<in> set ?new" by auto
      then have "\<exists>q\<in>set (queue @ ?new). last q = w" by (intro bexI[of _ "path @ [w]"]) simp_all
      ultimately show ?thesis by blast
    qed
  qed
qed

lemma bfs_shortest_path_loop_correct:
  "wf_graph g \<Longrightarrow> has_vertex g start \<Longrightarrow> bfs_inv g start end visited queue \<Longrightarrow>
     \<exists>res. bfs_shortest_path_loop g end visited queue = Inr res \<and>
           shortest_or_none g start end res"
proof (induction g "end" visited queue rule: bfs_shortest_path_loop.induct)
  case (1 g "end" visited)
  from bfs_inv_empty_no_path[OF 1(3)] show ?case
    by (simp add: shortest_or_none_def)
next
  case (2 g "end" visited path queue)
  note inv = 2(5)
  have A0: "is_path g path" "hd path = start"
    using inv unfolding bfs_inv_def by simp_all
  then have ne: "path \<noteq> []" by (auto dest: is_path_nonempty)
  show ?case
  proof (cases "last path \<in> set visited")
    case True
    from bfs_inv_skip[OF inv True] have "bfs_inv g start end visited queue" .
    from 2(2)[OF ne refl _ 2(3,4) this] True
    obtain res where "bfs_shortest_path_loop g end visited queue = Inr res"
      "shortest_or_none g start end res" by auto
    with ne True show ?thesis by simp
  next
    case False
    from path_end_known[OF 2(3) A0(1)] A0(2) 2(4) have "has_vertex g (last path)" by simp
    then obtain ns where ns: "map_of (adjacentList g) (last path) = Some ns"
      by (auto simp: has_vertex_def)
    show ?thesis
    proof (cases "end \<in> set (map fst ns)")
      case found: True
      then have "edge g (last path) end" using ns by (simp add: edge_def)
      from bfs_inv_found[OF inv this]
      have "shortest_or_none g start end (Some (path @ [end]))" .
      moreover have "bfs_shortest_path_loop g end visited (path # queue) = Inr (Some (path @ [end]))"
        using ne False ns found by (simp add: extend_path_eq)
      ultimately show ?thesis by simp
    next
      case notfound: False
      let ?q = "queue @ map (\<lambda>n. path @ [n]) (map fst ns)"
      have ext: "extend_path path end ns queue = Inr ?q"
        using notfound by (simp add: extend_path_eq)
      from bfs_inv_expand[OF inv ns notfound]
      have "bfs_inv g start end (visited @ [last path]) ?q" .
      from 2(1)[OF ne refl False ns ext 2(3,4) this]
      obtain res where "bfs_shortest_path_loop g end (visited @ [last path]) ?q = Inr res"
        "shortest_or_none g start end res" by auto
      moreover have "bfs_shortest_path_loop g end visited (path # queue)
          = bfs_shortest_path_loop g end (visited @ [last path]) ?q"
        using ne False ns ext by simp
      ultimately show ?thesis by simp
    qed
  qed
qed

lemma path_length_one: "is_path g p \<Longrightarrow> length p \<le> Suc 0 \<Longrightarrow> p = [hd p]"
  by (cases p) auto

lemma bfs_inv_init: "bfs_inv g start end [] [[start]]"
proof -
  have "\<exists>q\<in>set [[start]]. length q = length p \<and> last q = last p"
    if "is_path g p" "hd p = start" "length p \<le> length (hd [[start]])" for p
  proof -
    from that have "p = [start]" using path_length_one[of g p] by simp
    then show ?thesis by simp
  qed
  then show ?thesis
    unfolding bfs_inv_def by simp
qed

lemma bfs_shortest_path_correct:
  "wf_graph g \<Longrightarrow> has_vertex g start \<Longrightarrow>
     \<exists>res. bfs_shortest_path g start end = Inr res \<and> shortest_or_none g start end res"
  unfolding bfs_shortest_path_def
  by (rule bfs_shortest_path_loop_correct) (simp_all add: bfs_inv_init)

lemma dfs_shortest_path_loop_sound:
  "\<forall>q\<in>set stack. is_path g q \<and> hd q = start \<Longrightarrow>
     dfs_shortest_path_loop g end visited stack = Inr (Some r) \<Longrightarrow>
     path_between g start end r \<and> 2 \<le> length r"
proof (induction g "end" visited stack rule: dfs_shortest_path_loop.induct)
  case (1 g "end" visited stack)
  note eq = 1(4)
  from eq have ne: "stack \<noteq> []"
    by (subst (asm) dfs_shortest_path_loop.simps) (auto split: if_splits)
  let ?path = "last stack" and ?stack1 = "butlast stack"
  from ne 1(3) have P: "is_path g ?path" "hd ?path = start" by simp_all
  then have pne: "?path \<noteq> []" by (auto dest: is_path_nonempty)
  have rest: "\<forall>q\<in>set ?stack1. is_path g q \<and> hd q = start"
    using 1(3) by (auto dest: in_set_butlastD)
  show ?case
  proof (cases "last ?path \<in> set visited")
    case True
    with eq ne pne have "dfs_shortest_path_loop g end visited ?stack1 = Inr (Some r)"
      by (subst (asm) dfs_shortest_path_loop.simps) (simp add: Let_def)
    from 1(2)[OF ne refl refl pne refl _ rest this] True show ?thesis by simp
  next
    case False
    show ?thesis
    proof (cases "map_of (adjacentList g) (last ?path)")
      case None
      with eq ne pne False show ?thesis
        by (subst (asm) dfs_shortest_path_loop.simps) (simp add: Let_def)
    next
      case (Some ns)
      show ?thesis
      proof (cases "end \<in> set (map fst ns)")
        case found: True
        with eq ne pne False Some have r: "r = ?path @ [end]"
          by (subst (asm) dfs_shortest_path_loop.simps) (simp add: Let_def extend_path_eq)
        from found Some have "edge g (last ?path) end" by (simp add: edge_def)
        with P pne have "is_path g (?path @ [end])" by (simp add: is_path_snoc)
        moreover have "2 \<le> length (?path @ [end])" using pne by (cases ?path) simp_all
        ultimately show ?thesis using P pne r by (simp add: path_between_def)
      next
        case notfound: False
        let ?s2 = "?stack1 @ map (\<lambda>n. ?path @ [n]) (map fst ns)"
        have ext: "extend_path ?path end ns ?stack1 = Inr ?s2"
          using notfound by (simp add: extend_path_eq)
        with eq ne pne False Some
        have call: "dfs_shortest_path_loop g end (visited @ [last ?path]) ?s2 = Inr (Some r)"
          by (subst (asm) dfs_shortest_path_loop.simps) (simp add: Let_def)
        have "edge g (last ?path) (fst x)" if "x \<in> set ns" for x
          using that Some by (simp add: edge_def)
        with P pne rest have "\<forall>q\<in>set ?s2. is_path g q \<and> hd q = start"
          by (auto simp: is_path_snoc)
        from 1(1)[OF ne refl refl pne refl False Some ext this call] show ?thesis .
      qed
    qed
  qed
qed

lemma dfs_shortest_path_sound:
  "dfs_shortest_path g start end = Inr (Some r) \<Longrightarrow> path_between g start end r \<and> 2 \<le> length r"
  unfolding dfs_shortest_path_def
  by (rule dfs_shortest_path_loop_sound[where stack = "[[start]]" and visited = "[]"]) simp_all

subsection \<open>Claim C2: \<^verbatim>\<open>bfs_shortest_path\<close> returns a path with the fewest edges\<close>

text \<open>
  C2 as stated fails for \<^verbatim>\<open>start = end\<close>: the one-vertex path \<^verbatim>\<open>[start]\<close> is a path from
  \<^verbatim>\<open>start\<close> to \<^verbatim>\<open>end\<close> with no edge, the minimum, but the loop only returns when it meets
  \<^verbatim>\<open>end\<close> as a neighbor. On the graph with the single vertex 1 and no edge,
  \<^verbatim>\<open>bfs_shortest_path(1, 1)\<close> returns \<^verbatim>\<open>None\<close> although a path exists.
\<close>

theorem bfs_shortest_path_same_ends_counterexample:
  "has_vertex (addVertex (Graph_init False False :: (int, int) graph) 1) 1 \<and>
   path_between (addVertex (Graph_init False False :: (int, int) graph) 1) 1 1 [1] \<and>
   bfs_shortest_path (addVertex (Graph_init False False :: (int, int) graph) 1) 1 1 = Inr None"
  by (simp add: addVertex_def has_vertex_def Graph_init_def path_between_def
      bfs_shortest_path_def)

text \<open>
  C2, amended: for every graph built by the mutators (keys distinct, every neighbor a
  key) and every known vertex \<^verbatim>\<open>start\<close>, if some path from \<^verbatim>\<open>start\<close> to \<^verbatim>\<open>end\<close> with at
  least one edge exists, then \<^verbatim>\<open>bfs_shortest_path(start, end)\<close> returns such a path with
  the minimum number of edges among them, so with no more edges than any path
  \<^verbatim>\<open>dfs_shortest_path(start, end)\<close> returns; if no such path exists it returns \<^verbatim>\<open>None\<close>.
  When \<^verbatim>\<open>start\<close> and \<^verbatim>\<open>end\<close> differ, every path between them has at least one edge.
\<close>

theorem bfs_shortest_path_minimal:
  "wf_graph g \<Longrightarrow> has_vertex g start \<Longrightarrow>
     ((\<exists>p. path_between g start end p \<and> 1 \<le> edge_count p) \<longrightarrow>
        (\<exists>q. bfs_shortest_path g start end = Inr (Some q) \<and>
             path_between g start end q \<and> 1 \<le> edge_count q \<and>
             (\<forall>p. path_between g start end p \<and> 1 \<le> edge_count p \<longrightarrow>
                  edge_count q \<le> edge_count p) \<and>
             (\<forall>r. dfs_shortest_path g start end = Inr (Some r) \<longrightarrow>
                  edge_count q \<le> edge_count r))) \<and>
     (\<not> (\<exists>p. path_between g start end p \<and> 1 \<le> edge_count p) \<longrightarrow>
        bfs_shortest_path g start end = Inr None) \<and>
     (start \<noteq> end \<longrightarrow> (\<forall>p. path_between g start end p \<longrightarrow> 1 \<le> edge_count p))"
proof -
  assume wf: "wf_graph g" and st: "has_vertex g start"
  have ec: "Suc 0 \<le> edge_count p \<longleftrightarrow> 2 \<le> length p" for p :: "'a list"
    by (auto simp: edge_count_def)
  from bfs_shortest_path_correct[OF wf st, of "end"] obtain res where
    res: "bfs_shortest_path g start end = Inr res" "shortest_or_none g start end res"
    by blast
  have 1: "\<exists>q. bfs_shortest_path g start end = Inr (Some q) \<and>
             path_between g start end q \<and> 1 \<le> edge_count q \<and>
             (\<forall>p. path_between g start end p \<and> 1 \<le> edge_count p \<longrightarrow>
                  edge_count q \<le> edge_count p) \<and>
             (\<forall>r. dfs_shortest_path g start end = Inr (Some r) \<longrightarrow>
                  edge_count q \<le> edge_count r)"
    if ex: "\<exists>p. path_between g start end p \<and> 1 \<le> edge_count p"
  proof (cases res)
    case None
    with res(2) ex show ?thesis by (auto simp: shortest_or_none_def ec)
  next
    case (Some q)
    with res(2) have q: "path_between g start end q" "2 \<le> length q"
      and m: "\<And>p. path_between g start end p \<Longrightarrow> 2 \<le> length p \<Longrightarrow> length q \<le> length p"
      by (simp_all add: shortest_or_none_def)
    have m': "edge_count q \<le> edge_count p" if "path_between g start end p" "1 \<le> edge_count p" for p
    proof -
      from that(2) have "2 \<le> length p" by (simp add: ec)
      from m[OF that(1) this] show ?thesis by (simp add: edge_count_def)
    qed
    have "edge_count q \<le> edge_count r" if "dfs_shortest_path g start end = Inr (Some r)" for r
      using dfs_shortest_path_sound[OF that] m' by (simp add: ec)
    with q m' res(1) Some show ?thesis by (simp add: ec)
  qed
  have 2: "bfs_shortest_path g start end = Inr None"
    if no: "\<not> (\<exists>p. path_between g start end p \<and> 1 \<le> edge_count p)"
  proof (cases res)
    case None
    with res(1) show ?thesis by simp
  next
    case (Some q)
    with res(2) no show ?thesis by (auto simp: shortest_or_none_def ec)
  qed
  have 3: "1 \<le> edge_count p" if "start \<noteq> end" "path_between g start end p" for p
  proof (cases p)
    case Nil
    with that show ?thesis by (simp add: path_between_def)
  next
    case (Cons a list)
    with that show ?thesis by (cases list) (auto simp: path_between_def edge_count_def)
  qed
  from 1 2 3 show ?thesis by blast
qed

theorem bfs_shortest_path_minimal_witness:
  "wf_graph example_graph \<and> has_vertex example_graph 1 \<and>
   path_between example_graph 1 5 [1, 3, 4, 5] \<and> 1 \<le> edge_count [1, 3, 4, 5 :: int] \<and>
   bfs_shortest_path example_graph 1 5 = Inr (Some [1, 2, 5]) \<and>
   dfs_shortest_path example_graph 1 5 = Inr (Some [1, 3, 4, 5]) \<and>
   edge_count [1, 2, 5 :: int] \<le> edge_count [1, 3, 4, 5 :: int] \<and>
   bfs_shortest_path example_graph 1 9 = Inr None \<and>
   \<not> (\<exists>p. path_between example_graph 1 9 p \<and> 1 \<le> edge_count p)"
proof -
  have wf: "wf_graph example_graph"
    unfolding example_graph_def by (rule wf_graph_built)
  have hv: "has_vertex example_graph 1" by code_simp
  have p: "path_between example_graph 1 5 [1, 3, 4, 5]" by code_simp
  have l: "1 \<le> edge_count [1, 3, 4, 5 :: int]" by (simp add: edge_count_def)
  have b: "bfs_shortest_path example_graph 1 5 = Inr (Some [1, 2, 5])" by code_simp
  have d: "dfs_shortest_path example_graph 1 5 = Inr (Some [1, 3, 4, 5])" by code_simp
  have n: "bfs_shortest_path example_graph 1 9 = Inr None" by code_simp
  from bfs_shortest_path_minimal[OF wf hv, of 5] p l
  obtain q where "bfs_shortest_path example_graph 1 5 = Inr (Some q)"
    "\<forall>r. dfs_shortest_path example_graph 1 5 = Inr (Some r) \<longrightarrow> edge_count q \<le> edge_count r"
    by blast
  with b d have le: "edge_count [1, 2, 5 :: int] \<le> edge_count [1, 3, 4, 5 :: int]" by simp
  from bfs_shortest_path_minimal[OF wf hv, of 9] n
  have no: "\<not> (\<exists>p. path_between example_graph 1 9 p \<and> 1 \<le> edge_count p)" by auto
  from wf hv p l b d le n no show ?thesis by blast
qed

section \<open>Properties of \<^verbatim>\<open>dfs\<close>\<close>

subsection \<open>Termination\<close>

lemma dfs_push_measure:
  "fst ` set ns \<subseteq> T \<Longrightarrow> finite T \<Longrightarrow>
     dfs_push vertex avoid ns path stack = (path', stack') \<Longrightarrow>
     card (T - dom path') + length stack' = card (T - dom path) + length stack"
proof (induction ns arbitrary: path stack)
  case Nil
  then show ?case by simp
next
  case (Cons x rest)
  obtain neighbor weight where x: "x = (neighbor, weight)" by (cases x)
  from Cons.prems(1) x have nT: "neighbor \<in> T" and rT: "fst ` set rest \<subseteq> T" by auto
  show ?case
  proof (cases "neighbor \<noteq> avoid \<and> path neighbor = None")
    case True
    let ?path2 = "path(neighbor \<mapsto> Some vertex)"
    from True Cons.prems(3) x
    have "dfs_push vertex avoid rest ?path2 (stack @ [neighbor]) = (path', stack')"
      by simp
    from Cons.IH[OF rT Cons.prems(2) this]
    have 1: "card (T - dom path') + length stack'
        = card (T - dom ?path2) + length (stack @ [neighbor])" .
    have "finite (T - dom path)" using Cons.prems(2) by simp
    moreover have "neighbor \<in> T - dom path" using True nT by auto
    ultimately have 2: "card (T - dom path) = Suc (card (T - dom path - {neighbor}))"
      by (rule card.remove)
    have 3: "T - dom ?path2 = T - dom path - {neighbor}" by auto
    from 1 2 show ?thesis unfolding 3 by simp
  next
    case False
    with Cons.prems(3) x have "dfs_push vertex avoid rest path stack = (path', stack')"
      by (auto split: if_splits)
    from Cons.IH[OF rT Cons.prems(2) this] show ?thesis .
  qed
qed

lemma neighbors_in_targets:
  assumes "map_of (adjacentList g) vertex = Some ns"
  shows "fst ` set ns \<subseteq> targets g"
proof
  fix n assume "n \<in> fst ` set ns"
  then obtain w where "(n, w) \<in> set ns" by auto
  moreover from assms have "(vertex, ns) \<in> set (adjacentList g)" by (rule map_of_SomeD)
  ultimately have "(vertex, n, w) \<in> stored_edges g" by (auto simp: stored_edges_iff)
  then show "n \<in> targets g" by (force simp: targets_def)
qed

lemma dfs_loop_decreases:
  assumes "stack \<noteq> []" "map_of (adjacentList g) (last stack) = Some ns"
    and "dfs_push (last stack) avoid ns path (butlast stack) = (path', stack')"
  shows "card (targets g - dom path') + length stack'
           < card (targets g - dom path) + length stack"
proof -
  have "finite (targets g)" by (simp add: targets_def stored_edges_def)
  from dfs_push_measure[OF neighbors_in_targets[OF assms(2)] this assms(3)]
  have "card (targets g - dom path') + length stack'
      = card (targets g - dom path) + length (butlast stack)" .
  moreover have "length (butlast stack) < length stack"
    using assms(1) by (simp add: less_Suc_eq_0_disj)
  ultimately show ?thesis by linarith
qed

termination dfs_loop
proof (relation "measure (\<lambda>(g, end, avoid, path, stack).
    card (targets g - dom path) + length stack)", goal_cases)
  case 1
  show ?case by simp
next
  case (2 g "end" avoid path stack vertex stack1 ns path' stack')
  then have ns: "map_of (adjacentList g) (last stack) = Some ns"
    and push: "dfs_push (last stack) avoid ns path (butlast stack) = (path', stack')"
    by simp_all
  from dfs_loop_decreases[OF 2(1) ns push] show ?case by simp
qed

declare dfs_loop.simps [simp del]

declare dfs_route.simps [code]

subsection \<open>The predecessor dictionary\<close>








subsection \<open>Claim C3: \<^verbatim>\<open>dfs\<close> never returns the avoided vertex\<close>



section \<open>Properties of \<^verbatim>\<open>dijkstra\<close>\<close>

subsection \<open>The priority queue\<close>

termination siftdown_loop
  by (relation "measure (\<lambda>(lt, heap, startpos, pos, newitem). pos)") auto

termination siftup_loop
  by (relation "measure (\<lambda>(lt, heap, endpos, pos). endpos - pos)") auto

declare siftdown_loop.simps [simp del]

declare siftup_loop.simps [simp del]

lemma entry_less_ok:
  "orderable lt V \<Longrightarrow> snd a \<in> V \<Longrightarrow> snd b \<in> V \<Longrightarrow> \<exists>r. entry_less lt a b = Inr r"
proof -
  assume o: "orderable lt V" and a: "snd a \<in> V" and b: "snd b \<in> V"
  from o a b have "lt (snd a) (snd b) \<noteq> None" unfolding orderable_def by blast
  then obtain r where "lt (snd a) (snd b) = Some r" by auto
  then show ?thesis by (cases a; cases b) auto
qed

lemma set_update_nth_le: "j \<le> i \<Longrightarrow> set (xs[i := xs ! j]) \<subseteq> set xs"
proof (cases "i < length xs")
  case True
  assume "j \<le> i"
  with True have "xs ! j \<in> set xs" by simp
  with set_update_subset_insert[of xs i "xs ! j"] show ?thesis by auto
next
  case False
  then show ?thesis by (simp add: list_update_beyond not_less)
qed

lemma set_update_nth_less: "j < length xs \<Longrightarrow> set (xs[i := xs ! j]) \<subseteq> set xs"
proof -
  assume "j < length xs"
  then have "xs ! j \<in> set xs" by simp
  with set_update_subset_insert[of xs i "xs ! j"] show ?thesis by auto
qed

lemma siftdown_loop_stop:
  "\<not> startpos < pos \<Longrightarrow> siftdown_loop lt heap startpos pos newitem = Inr (heap[pos := newitem])"
  by (subst siftdown_loop.simps) simp

lemma siftdown_loop_step:
  "startpos < pos \<Longrightarrow>
     siftdown_loop lt heap startpos pos newitem =
       (case entry_less lt newitem (heap ! ((pos - 1) div 2)) of
          Inl e \<Rightarrow> Inl e
        | Inr smaller \<Rightarrow>
            if smaller
            then siftdown_loop lt (heap[pos := heap ! ((pos - 1) div 2)]) startpos
                   ((pos - 1) div 2) newitem
            else Inr (heap[pos := newitem]))"
  by (subst siftdown_loop.simps) (simp only: Let_def if_True)

lemma siftdown_loop_result:
  "siftdown_loop lt heap startpos pos newitem = Inr h \<Longrightarrow>
     length h = length heap \<and> set h \<subseteq> insert newitem (set heap)"
proof (induction lt heap startpos pos newitem rule: siftdown_loop.induct)
  case (1 lt heap startpos pos newitem)
  show ?case
  proof (cases "startpos < pos")
    case False
    with "1.prems" have "h = heap[pos := newitem]" by (simp add: siftdown_loop_stop)
    then show ?thesis using set_update_subset_insert[of heap pos newitem] by simp
  next
    case True
    let ?pp = "(pos - 1) div 2"
    from True "1.prems" obtain smaller where
      el: "entry_less lt newitem (heap ! ?pp) = Inr smaller"
      by (auto simp: siftdown_loop_step split: sum.splits)
    show ?thesis
    proof (cases smaller)
      case s: True
      with True el "1.prems"
      have r: "siftdown_loop lt (heap[pos := heap ! ?pp]) startpos ?pp newitem = Inr h"
        by (simp add: siftdown_loop_step)
      from "1.IH"[OF True refl refl el s r]
      have "length h = length heap"
        and "set h \<subseteq> insert newitem (set (heap[pos := heap ! ?pp]))" by simp_all
      moreover have "set (heap[pos := heap ! ?pp]) \<subseteq> set heap"
        by (rule set_update_nth_le) simp
      ultimately show ?thesis by auto
    next
      case False
      with True el "1.prems" have "h = heap[pos := newitem]"
        by (simp add: siftdown_loop_step)
      then show ?thesis using set_update_subset_insert[of heap pos newitem] by simp
    qed
  qed
qed

lemma siftdown_loop_ok:
  "orderable lt V \<Longrightarrow> snd newitem \<in> V \<Longrightarrow> snd ` set heap \<subseteq> V \<Longrightarrow> pos < length heap \<Longrightarrow>
     \<exists>h. siftdown_loop lt heap startpos pos newitem = Inr h"
proof (induction lt heap startpos pos newitem rule: siftdown_loop.induct)
  case (1 lt heap startpos pos newitem)
  show ?case
  proof (cases "startpos < pos")
    case False
    then show ?thesis by (simp add: siftdown_loop_stop)
  next
    case True
    let ?pp = "(pos - 1) div 2"
    from "1.prems"(4) have pp: "?pp < length heap" by simp
    then have "heap ! ?pp \<in> set heap" by simp
    with "1.prems"(3) have "snd (heap ! ?pp) \<in> V" by auto
    from entry_less_ok[OF "1.prems"(1,2) this] obtain smaller where
      el: "entry_less lt newitem (heap ! ?pp) = Inr smaller" by blast
    show ?thesis
    proof (cases smaller)
      case s: True
      have "set (heap[pos := heap ! ?pp]) \<subseteq> set heap"
        by (rule set_update_nth_le) simp
      with "1.prems"(3) have sub: "snd ` set (heap[pos := heap ! ?pp]) \<subseteq> V" by auto
      from pp have "?pp < length (heap[pos := heap ! ?pp])" by simp
      from "1.IH"[OF True refl refl el s "1.prems"(1,2) sub this]
      show ?thesis using True el s by (simp add: siftdown_loop_step)
    next
      case False
      with True el show ?thesis by (simp add: siftdown_loop_step)
    qed
  qed
qed

lemma siftdown_result:
  "pos < length heap \<Longrightarrow> siftdown lt heap startpos pos = Inr h \<Longrightarrow>
     length h = length heap \<and> set h \<subseteq> set heap"
proof -
  assume p: "pos < length heap" and r: "siftdown lt heap startpos pos = Inr h"
  from r have "siftdown_loop lt heap startpos pos (heap ! pos) = Inr h"
    by (simp add: siftdown_def)
  from siftdown_loop_result[OF this] p show ?thesis by auto
qed

lemma siftdown_ok:
  "orderable lt V \<Longrightarrow> snd ` set heap \<subseteq> V \<Longrightarrow> pos < length heap \<Longrightarrow>
     \<exists>h. siftdown lt heap startpos pos = Inr h"
proof -
  assume o: "orderable lt V" and s: "snd ` set heap \<subseteq> V" and p: "pos < length heap"
  from p have "heap ! pos \<in> set heap" by simp
  with s have "snd (heap ! pos) \<in> V" by auto
  from siftdown_loop_ok[OF o this s p] show ?thesis by (simp add: siftdown_def)
qed

lemma siftup_loop_stop:
  "\<not> 2 * pos + 1 < endpos \<Longrightarrow> siftup_loop lt heap endpos pos = Inr (heap, pos)"
  by (subst siftup_loop.simps) (simp only: Let_def if_False)

lemma siftup_loop_left:
  "2 * pos + 1 < endpos \<Longrightarrow> \<not> 2 * pos + 1 + 1 < endpos \<Longrightarrow>
     siftup_loop lt heap endpos pos =
       siftup_loop lt (heap[pos := heap ! (2 * pos + 1)]) endpos (2 * pos + 1)"
  by (subst siftup_loop.simps) (simp only: Let_def if_True if_False)

lemma siftup_loop_both:
  "2 * pos + 1 < endpos \<Longrightarrow> 2 * pos + 1 + 1 < endpos \<Longrightarrow>
     siftup_loop lt heap endpos pos =
       (case entry_less lt (heap ! (2 * pos + 1)) (heap ! (2 * pos + 1 + 1)) of
          Inl e \<Rightarrow> Inl e
        | Inr smaller \<Rightarrow>
            if \<not> smaller
            then siftup_loop lt (heap[pos := heap ! (2 * pos + 1 + 1)]) endpos (2 * pos + 1 + 1)
            else siftup_loop lt (heap[pos := heap ! (2 * pos + 1)]) endpos (2 * pos + 1))"
  by (subst siftup_loop.simps) (simp only: Let_def if_True)

lemma siftup_loop_result:
  "endpos \<le> length heap \<Longrightarrow> pos < endpos \<Longrightarrow> siftup_loop lt heap endpos pos = Inr (h, p) \<Longrightarrow>
     length h = length heap \<and> set h \<subseteq> set heap \<and> p < endpos"
proof (induction lt heap endpos pos rule: siftup_loop.induct)
  case (1 lt heap endpos pos)
  let ?c = "2 * pos + 1"
  let ?r = "?c + 1"
  note le = "1.prems"(1) and res = "1.prems"(3)
  show ?case
  proof (cases "?c < endpos")
    case False
    from res have "h = heap \<and> p = pos" by (simp only: siftup_loop_stop[OF False]) simp
    with "1.prems"(2) show ?thesis by simp
  next
    case c: True
    from c le have "?c < length heap" by simp
    then have setc: "set (heap[pos := heap ! ?c]) \<subseteq> set heap" by (rule set_update_nth_less)
    have lec: "endpos \<le> length (heap[pos := heap ! ?c])" using le by simp
    show ?thesis
    proof (cases "?r < endpos")
      case False
      from res have r: "siftup_loop lt (heap[pos := heap ! ?c]) endpos ?c = Inr (h, p)"
        by (simp only: siftup_loop_left[OF c False])
      from "1.IH"(3)[OF refl c refl False lec c r] setc show ?thesis by auto
    next
      case r: True
      from r le have "?r < length heap" by simp
      then have setr: "set (heap[pos := heap ! ?r]) \<subseteq> set heap" by (rule set_update_nth_less)
      have ler: "endpos \<le> length (heap[pos := heap ! ?r])" using le by simp
      from res have cs: "(case entry_less lt (heap ! ?c) (heap ! ?r) of
            Inl e \<Rightarrow> Inl e
          | Inr smaller \<Rightarrow>
              if \<not> smaller
              then siftup_loop lt (heap[pos := heap ! ?r]) endpos ?r
              else siftup_loop lt (heap[pos := heap ! ?c]) endpos ?c) = Inr (h, p)"
        by (simp only: siftup_loop_both[OF c r])
      then obtain b where el: "entry_less lt (heap ! ?c) (heap ! ?r) = Inr b"
        by (cases "entry_less lt (heap ! ?c) (heap ! ?r)") simp_all
      show ?thesis
      proof (cases b)
        case True
        with cs el have rr: "siftup_loop lt (heap[pos := heap ! ?c]) endpos ?c = Inr (h, p)"
          by simp
        from True have nn: "\<not> \<not> b" by simp
        from "1.IH"(2)[OF refl c refl r el nn lec c rr] setc show ?thesis by auto
      next
        case False
        with cs el have rr: "siftup_loop lt (heap[pos := heap ! ?r]) endpos ?r = Inr (h, p)"
          by simp
        from "1.IH"(1)[OF refl c refl r el False ler r rr] setr show ?thesis by auto
      qed
    qed
  qed
qed

lemma siftup_loop_ok:
  "orderable lt V \<Longrightarrow> snd ` set heap \<subseteq> V \<Longrightarrow> endpos \<le> length heap \<Longrightarrow>
     \<exists>h p. siftup_loop lt heap endpos pos = Inr (h, p)"
proof (induction lt heap endpos pos rule: siftup_loop.induct)
  case (1 lt heap endpos pos)
  let ?c = "2 * pos + 1"
  let ?r = "?c + 1"
  note ord = "1.prems"(1) and sub = "1.prems"(2) and le = "1.prems"(3)
  show ?case
  proof (cases "?c < endpos")
    case False
    show ?thesis by (simp only: siftup_loop_stop[OF False]) simp
  next
    case c: True
    from c le have cl: "?c < length heap" by simp
    then have "set (heap[pos := heap ! ?c]) \<subseteq> set heap" by (rule set_update_nth_less)
    with sub have subc: "snd ` set (heap[pos := heap ! ?c]) \<subseteq> V" by auto
    have lec: "endpos \<le> length (heap[pos := heap ! ?c])" using le by simp
    show ?thesis
    proof (cases "?r < endpos")
      case False
      from "1.IH"(3)[OF refl c refl False ord subc lec]
      show ?thesis by (simp only: siftup_loop_left[OF c False])
    next
      case r: True
      from r le have rl: "?r < length heap" by simp
      then have "set (heap[pos := heap ! ?r]) \<subseteq> set heap" by (rule set_update_nth_less)
      with sub have subr: "snd ` set (heap[pos := heap ! ?r]) \<subseteq> V" by auto
      have ler: "endpos \<le> length (heap[pos := heap ! ?r])" using le by simp
      from cl sub have "snd (heap ! ?c) \<in> V" by (meson image_subset_iff nth_mem)
      moreover from rl sub have "snd (heap ! ?r) \<in> V" by (meson image_subset_iff nth_mem)
      ultimately obtain b where el: "entry_less lt (heap ! ?c) (heap ! ?r) = Inr b"
        using entry_less_ok[OF ord] by blast
      show ?thesis
      proof (cases b)
        case True
        then have nn: "\<not> \<not> b" by simp
        from "1.IH"(2)[OF refl c refl r el nn ord subc lec] True el
        show ?thesis by (simp only: siftup_loop_both[OF c r]) simp
      next
        case False
        from "1.IH"(1)[OF refl c refl r el False ord subr ler] False el
        show ?thesis by (simp only: siftup_loop_both[OF c r]) simp
      qed
    qed
  qed
qed

lemma siftup_result:
  "startpos < length heap \<Longrightarrow> siftup lt heap startpos = Inr h \<Longrightarrow>
     length h = length heap \<and> set h \<subseteq> set heap"
proof -
  assume s: "startpos < length heap" and r: "siftup lt heap startpos = Inr h"
  let ?newitem = "heap ! startpos"
  from r obtain heap1 p where
    sl: "siftup_loop lt heap (length heap) startpos = Inr (heap1, p)"
    and sd: "siftdown lt (heap1[p := ?newitem]) startpos p = Inr h"
    by (auto simp: siftup_def Let_def split: sum.splits)
  from siftup_loop_result[OF le_refl s sl]
  have l1: "length heap1 = length heap" and s1: "set heap1 \<subseteq> set heap" and p: "p < length heap"
    by simp_all
  from p l1 have "p < length (heap1[p := ?newitem])" by simp
  from siftdown_result[OF this sd]
  have "length h = length heap1" and "set h \<subseteq> set (heap1[p := ?newitem])" by simp_all
  moreover have "set (heap1[p := ?newitem]) \<subseteq> insert ?newitem (set heap1)"
    by (rule set_update_subset_insert)
  moreover from s have "?newitem \<in> set heap" by simp
  ultimately show ?thesis using l1 s1 by auto
qed

lemma siftup_ok:
  "orderable lt V \<Longrightarrow> snd ` set heap \<subseteq> V \<Longrightarrow> startpos < length heap \<Longrightarrow>
     \<exists>h. siftup lt heap startpos = Inr h"
proof -
  assume ord: "orderable lt V" and sub: "snd ` set heap \<subseteq> V" and s: "startpos < length heap"
  let ?newitem = "heap ! startpos"
  from siftup_loop_ok[OF ord sub le_refl] obtain heap1 p where
    sl: "siftup_loop lt heap (length heap) startpos = Inr (heap1, p)" by blast
  from siftup_loop_result[OF le_refl s sl]
  have l1: "length heap1 = length heap" and s1: "set heap1 \<subseteq> set heap" and p: "p < length heap"
    by simp_all
  from p l1 have pl: "p < length (heap1[p := ?newitem])" by simp
  have "set (heap1[p := ?newitem]) \<subseteq> insert ?newitem (set heap1)"
    by (rule set_update_subset_insert)
  moreover from s have "?newitem \<in> set heap" by simp
  ultimately have "set (heap1[p := ?newitem]) \<subseteq> set heap" using s1 by auto
  with sub have "snd ` set (heap1[p := ?newitem]) \<subseteq> V" by auto
  from siftdown_ok[OF ord this pl] obtain h where
    "siftdown lt (heap1[p := ?newitem]) startpos p = Inr h" by blast
  with sl show ?thesis by (simp add: siftup_def Let_def)
qed

lemma heapify_loop_result:
  "i \<le> length x \<Longrightarrow> heapify_loop lt i x = Inr h \<Longrightarrow> length h = length x \<and> set h \<subseteq> set x"
proof (induction i arbitrary: x)
  case 0
  then show ?case by simp
next
  case (Suc i)
  from Suc.prems(2) obtain x1 where
    su: "siftup lt x i = Inr x1" and r: "heapify_loop lt i x1 = Inr h"
    by (auto split: sum.splits)
  from Suc.prems(1) have "i < length x" by simp
  from siftup_result[OF this su] have l: "length x1 = length x" and s: "set x1 \<subseteq> set x"
    by simp_all
  from Suc.prems(1) l have "i \<le> length x1" by simp
  from Suc.IH[OF this r] l s show ?case by auto
qed

lemma heapify_loop_ok:
  "orderable lt V \<Longrightarrow> snd ` set x \<subseteq> V \<Longrightarrow> i \<le> length x \<Longrightarrow> \<exists>h. heapify_loop lt i x = Inr h"
proof (induction i arbitrary: x)
  case 0
  then show ?case by simp
next
  case (Suc i)
  from Suc.prems(3) have il: "i < length x" by simp
  from siftup_ok[OF Suc.prems(1,2) il] obtain x1 where su: "siftup lt x i = Inr x1" by blast
  from siftup_result[OF il su] have l: "length x1 = length x" and s: "set x1 \<subseteq> set x"
    by simp_all
  from s Suc.prems(2) have sub: "snd ` set x1 \<subseteq> V" by auto
  from Suc.prems(3) l have "i \<le> length x1" by simp
  from Suc.IH[OF Suc.prems(1) sub this] su show ?case by simp
qed

lemma heapify_result:
  "heapify lt x = Inr h \<Longrightarrow> length h = length x \<and> set h \<subseteq> set x"
  unfolding heapify_def by (rule heapify_loop_result) simp_all

lemma heapify_ok:
  "orderable lt V \<Longrightarrow> snd ` set x \<subseteq> V \<Longrightarrow> \<exists>h. heapify lt x = Inr h"
  unfolding heapify_def by (rule heapify_loop_ok) simp_all

lemma heappush_result:
  "heappush lt heap item = Inr h \<Longrightarrow>
     length h = Suc (length heap) \<and> set h \<subseteq> insert item (set heap)"
proof -
  assume "heappush lt heap item = Inr h"
  then have r: "siftdown lt (heap @ [item]) 0 (length (heap @ [item]) - 1) = Inr h"
    by (simp only: heappush_def)
  have "length (heap @ [item]) - 1 < length (heap @ [item])" by simp
  from siftdown_result[OF this r] show ?thesis by auto
qed

lemma heappush_ok:
  "orderable lt V \<Longrightarrow> snd ` set heap \<subseteq> V \<Longrightarrow> snd item \<in> V \<Longrightarrow>
     \<exists>h. heappush lt heap item = Inr h"
proof -
  assume ord: "orderable lt V" and sub: "snd ` set heap \<subseteq> V" and i: "snd item \<in> V"
  from sub i have s: "snd ` set (heap @ [item]) \<subseteq> V" by auto
  have "length (heap @ [item]) - 1 < length (heap @ [item])" by simp
  from siftdown_ok[OF ord s this] show ?thesis by (simp only: heappush_def)
qed

lemma heappop_result:
  "heappop lt heap = Inr (e, h) \<Longrightarrow>
     length h < length heap \<and> e \<in> set heap \<and> set h \<subseteq> set heap"
proof -
  assume r: "heappop lt heap = Inr (e, h)"
  then have ne: "heap \<noteq> []" by (auto simp: heappop_def)
  let ?heap1 = "butlast heap"
  have b: "set ?heap1 \<subseteq> set heap" by (auto dest: in_set_butlastD)
  show ?thesis
  proof (cases "?heap1 = []")
    case True
    with r ne have "e = last heap" "h = []" by (simp_all add: heappop_def Let_def)
    with ne show ?thesis by simp
  next
    case False
    with r ne have e: "e = ?heap1 ! 0" and su: "siftup lt (?heap1[0 := last heap]) 0 = Inr h"
      by (auto simp: heappop_def Let_def split: sum.splits)
    from False have l0: "0 < length ?heap1" by (rule length_greater_0_conv[THEN iffD2])
    then have "0 < length (?heap1[0 := last heap])" by (simp only: length_list_update)
    from siftup_result[OF this su]
    have "length h = length ?heap1" and "set h \<subseteq> set (?heap1[0 := last heap])" by simp_all
    moreover have "set (?heap1[0 := last heap]) \<subseteq> insert (last heap) (set ?heap1)"
      by (rule set_update_subset_insert)
    moreover from ne have "last heap \<in> set heap" by simp
    moreover from l0 have "?heap1 ! 0 \<in> set ?heap1" by (rule nth_mem)
    moreover from ne have "length ?heap1 < length heap" by simp
    ultimately show ?thesis using b e by auto
  qed
qed

lemma heappop_ok:
  "orderable lt V \<Longrightarrow> snd ` set heap \<subseteq> V \<Longrightarrow> heap \<noteq> [] \<Longrightarrow>
     \<exists>e h. heappop lt heap = Inr (e, h)"
proof -
  assume ord: "orderable lt V" and sub: "snd ` set heap \<subseteq> V" and ne: "heap \<noteq> []"
  let ?heap1 = "butlast heap"
  show ?thesis
  proof (cases "?heap1 = []")
    case True
    with ne show ?thesis by (simp add: heappop_def Let_def)
  next
    case False
    have "set (?heap1[0 := last heap]) \<subseteq> insert (last heap) (set ?heap1)"
      by (rule set_update_subset_insert)
    moreover from ne have "last heap \<in> set heap" by simp
    moreover have "set ?heap1 \<subseteq> set heap" by (auto dest: in_set_butlastD)
    ultimately have "set (?heap1[0 := last heap]) \<subseteq> set heap" by auto
    with sub have s: "snd ` set (?heap1[0 := last heap]) \<subseteq> V" by auto
    from False have "0 < length ?heap1" by (rule length_greater_0_conv[THEN iffD2])
    then have "0 < length (?heap1[0 := last heap])" by (simp only: length_list_update)
    from siftup_ok[OF ord s this] obtain h where
      "siftup lt (?heap1[0 := last heap]) 0 = Inr h" by blast
    with False ne show ?thesis by (simp add: heappop_def Let_def)
  qed
qed

subsection \<open>Termination\<close>

lemma set_priority_length [simp]: "length (set_priority n a q) = length q"
  by (induction n a q rule: set_priority.induct) auto

lemma set_priority_vertices [simp]: "snd ` set (set_priority n a q) = snd ` set q"
  by (induction n a q rule: set_priority.induct) auto

lemma relax_length:
  "relax lt current ns s = Inr s' \<Longrightarrow> length (snd (snd s')) = length (snd (snd s))"
proof (induction ns arbitrary: s)
  case Nil
  then show ?case by simp
next
  case (Cons x rest)
  obtain neighbor weight where x: "x = (neighbor, weight)" by (cases x)
  obtain D P Q where s: "s = (D, P, Q)" by (cases s)
  from Cons.prems x s show ?case
    by (auto split: option.splits sum.splits if_splits dest!: Cons.IH heapify_result)
qed

termination dijkstra_loop
proof (relation "measure (\<lambda>(truthy, lt, g, end, distances, previous, queue). length queue)",
    goal_cases)
  case 1
  show ?case by simp
next
  case 2
  then show ?case by (auto dest!: heappop_result)
next
  case 3
  then show ?case by (auto dest!: heappop_result relax_length split: prod.splits)
qed

declare dijkstra_loop.simps [simp del]

declare dijkstra_walk.simps [code]

subsection \<open>Claim C1: the path \<^verbatim>\<open>dijkstra\<close> returns\<close>

text \<open>
  C1 fails on the code. The walk back from \<^verbatim>\<open>end\<close> runs \<^verbatim>\<open>while previous[current]\<close>,
  which tests the truth value of the predecessor and not whether it is \<^verbatim>\<open>None\<close>: the
  walk stops at the vertex \<^verbatim>\<open>0\<close> (or the empty string). On the graph with the edges
  1 \<rightarrow> 0 (1), 0 \<rightarrow> 3 (1), 3 \<rightarrow> 2 (1) and 1 \<rightarrow> 2 (10) the cheapest path from 1 to 2 is
  1, 0, 3, 2 with cost 3; \<^verbatim>\<open>dijkstra(1, 2)\<close> returns \<^verbatim>\<open>[1, 2]\<close>, a path of cost 10.
\<close>

theorem dijkstra_falsy_vertex:
  "dijkstra truthy_int int_less zero_vertex_graph 1 2 = Some (Inr [1, 2]) \<and>
   path_between zero_vertex_graph 1 2 [1, 2] \<and>
   path_cost zero_vertex_graph [1, 2] = Some 10 \<and>
   path_between zero_vertex_graph 1 2 [1, 0, 3, 2] \<and>
   path_cost zero_vertex_graph [1, 0, 3, 2] = Some 3"
  by code_simp

text \<open>The scenario of the spec holds: the vertices are non-empty strings.\<close>

lemma dijkstra_abc_scenario:
  "dijkstra truthy_str str_less abc_graph ''A'' ''C'' = Some (Inr [''A'', ''B'', ''C''])"
  by code_simp

subsection \<open>An \<^verbatim>\<open>end\<close> that is not reached\<close>

lemma stored_edges_addEdge_raise:
  "weighted g \<Longrightarrow> stored_edges (snd (addEdge g s t None)) = stored_edges g"
  by (simp add: addEdge_unfold)

lemma has_weights_apply_call:
  assumes "weighted g" "has_weights g"
  shows "has_weights (apply_call g c)"
proof (cases c)
  case (AddVertex v)
  with assms show ?thesis by (simp add: has_weights_def)
next
  case (AddEdge s t w)
  show ?thesis
  proof (cases w)
    case None
    with AddEdge assms show ?thesis
      by (simp add: has_weights_def stored_edges_addEdge_raise)
  next
    case (Some x)
    with AddEdge assms stored_edges_addEdge[of g s t w] show ?thesis
      by (auto simp: has_weights_def)
  qed
qed

lemma has_weights_run_calls:
  "weighted g \<Longrightarrow> has_weights g \<Longrightarrow> has_weights (run_calls g cs)"
  unfolding run_calls_def
  by (induction cs arbitrary: g) (simp_all add: has_weights_apply_call)

lemma has_weights_built: "has_weights (run_calls (Graph_init d True) cs)"
  by (rule has_weights_run_calls)
     (simp_all add: Graph_init_def has_weights_def stored_edges_def edge_list_def)

lemma linked_step: "linked g start u \<Longrightarrow> edge g u v \<Longrightarrow> linked g start v"
proof -
  assume l: "linked g start u" and e: "edge g u v"
  then obtain p where p: "is_path g p" "hd p = start" "last p = u"
    by (auto simp: linked_def path_between_def)
  then have "p \<noteq> []" by (auto dest: is_path_nonempty)
  with p e have "path_between g start v (p @ [v])"
    by (simp add: path_between_def is_path_snoc)
  with l show ?thesis unfolding linked_def by blast
qed

lemma linked_start: "has_vertex g start \<Longrightarrow> linked g start start"
proof -
  assume "has_vertex g start"
  moreover have "path_between g start start [start]" by (simp add: path_between_def)
  ultimately show ?thesis unfolding linked_def by blast
qed

lemma dist_add_less_Finite:
  "dist_add dc w = Inr alternative \<Longrightarrow> dist_less alternative dn \<Longrightarrow> \<exists>a. dc = Finite a"
  by (cases dc) (auto split: if_splits)

lemma dist_add_ok: "float_range w \<Longrightarrow> \<exists>alternative. dist_add dc w = Inr alternative"
  by (cases dc) auto

lemma relax_inv:
  "wf_graph g \<Longrightarrow> orderable lt (set (getVertices g)) \<Longrightarrow> dijkstra_inv g start (D, P, Q) \<Longrightarrow>
     has_vertex g current \<Longrightarrow>
     \<forall>(n, w) \<in> set ns. edge g current n \<and> (\<exists>x. w = Some x \<and> float_range x) \<Longrightarrow>
     \<exists>s'. relax lt current ns (D, P, Q) = Inr s' \<and> dijkstra_inv g start s'"
proof (induction ns arbitrary: D P Q)
  case Nil
  then show ?case by simp
next
  case (Cons x rest)
  note wf = Cons.prems(1) and ord = Cons.prems(2) and inv = Cons.prems(3)
    and hv = Cons.prems(4)
  obtain neighbor weight where x: "x = (neighbor, weight)" by (cases x)
  from Cons.prems(5) x obtain w where e: "edge g current neighbor" and w: "weight = Some w"
    and fr: "float_range w"
    and rest: "\<forall>(n, w) \<in> set rest. edge g current n \<and> (\<exists>x. w = Some x \<and> float_range x)"
    by auto
  from inv have domD: "dom D = set (getVertices g)" and domP: "dom P = set (getVertices g)"
    and Qs: "snd ` set Q \<subseteq> set (getVertices g)"
    and fin: "\<And>v x. D v = Some (Finite x) \<Longrightarrow> linked g start v"
    and pre: "\<And>v u. P v = Some (Some u) \<Longrightarrow> linked g start v"
    by (simp_all add: dijkstra_inv_def)
  from hv domD obtain dc where dc: "D current = Some dc"
    by (auto simp: has_vertex_iff)
  from edge_target_known[OF wf e] domD obtain dn where dn: "D neighbor = Some dn"
    by (auto simp: has_vertex_iff)
  have nk: "neighbor \<in> set (getVertices g)"
    using edge_target_known[OF wf e] by (simp add: has_vertex_iff)
  from dist_add_ok[OF fr] obtain alternative where alt: "dist_add dc w = Inr alternative"
    by blast
  show ?case
  proof (cases "dist_less alternative dn")
    case True
    let ?D = "D(neighbor \<mapsto> alternative)" and ?P = "P(neighbor \<mapsto> Some current)"
    let ?Q = "set_priority neighbor alternative Q"
    from Qs have "snd ` set ?Q \<subseteq> set (getVertices g)" by simp
    from heapify_ok[OF ord this] obtain Q1 where h: "heapify lt ?Q = Inr Q1" by blast
    from heapify_result[OF h] have "set Q1 \<subseteq> set ?Q" by simp
    then have "snd ` set Q1 \<subseteq> snd ` set ?Q" by (rule image_mono)
    with Qs have Q1s: "snd ` set Q1 \<subseteq> set (getVertices g)" by simp
    from dist_add_less_Finite[OF alt True] obtain a where "dc = Finite a" by blast
    with dc fin have "linked g start current" by blast
    from linked_step[OF this e] have ln: "linked g start neighbor" .
    have "dijkstra_inv g start (?D, ?P, Q1)"
      unfolding dijkstra_inv_def using domD domP Q1s nk ln fin pre
      by (auto split: if_splits)
    from Cons.IH[OF wf ord this hv rest]
    obtain s' where "relax lt current rest (?D, ?P, Q1) = Inr s'" "dijkstra_inv g start s'"
      by blast
    with True dc dn w x alt h show ?thesis by simp
  next
    case False
    from Cons.IH[OF wf ord inv hv rest]
    obtain s' where "relax lt current rest (D, P, Q) = Inr s'" "dijkstra_inv g start s'"
      by blast
    with False dc dn w x alt show ?thesis by simp
  qed
qed

lemma dijkstra_loop_unreached:
  "wf_graph g \<Longrightarrow> has_weights g \<Longrightarrow> float_weights g \<Longrightarrow> orderable lt (set (getVertices g)) \<Longrightarrow>
     dijkstra_inv g start s \<Longrightarrow> \<not> linked g start end \<Longrightarrow>
     dijkstra_loop truthy lt g end s = Some (Inr [])"
proof (induction truthy lt g "end" s rule: dijkstra_loop.induct)
  case (1 truthy lt g "end" D P Q)
  note wf = "1.prems"(1) and hw = "1.prems"(2) and fw = "1.prems"(3) and ord = "1.prems"(4)
    and inv = "1.prems"(5) and nl = "1.prems"(6)
  show ?case
  proof (cases "Q = []")
    case True
    then show ?thesis by (subst dijkstra_loop.simps) simp
  next
    case False
    from inv have domP: "dom P = set (getVertices g)"
      and Qs: "snd ` set Q \<subseteq> set (getVertices g)"
      and pre: "\<And>v u. P v = Some (Some u) \<Longrightarrow> linked g start v"
      by (simp_all add: dijkstra_inv_def)
    from heappop_ok[OF ord Qs False] obtain entry Q1 where
      pop: "heappop lt Q = Inr (entry, Q1)" by blast
    let ?c = "snd entry"
    from heappop_result[OF pop] have ein: "entry \<in> set Q" and sub: "set Q1 \<subseteq> set Q"
      by simp_all
    from ein Qs have ck: "?c \<in> set (getVertices g)" by auto
    have "snd ` set Q1 \<subseteq> set (getVertices g)"
      using sub Qs by (meson image_mono subset_trans)
    with inv have inv1: "dijkstra_inv g start (D, P, Q1)"
      by (simp add: dijkstra_inv_def)
    show ?thesis
    proof (cases "?c = end")
      case True
      from ck domP obtain x where x: "P ?c = Some x" by auto
      have "x = None"
      proof (cases x)
        case (Some u)
        with x pre have "linked g start ?c" by blast
        with True nl show ?thesis by simp
      qed simp
      with x have "dijkstra_walk truthy P ?c [] = Some (Inr [])"
        by (subst dijkstra_walk.simps) simp
      with False pop True show ?thesis by (subst dijkstra_loop.simps) (simp add: Let_def)
    next
      case notend: False
      from ck obtain ns where ns: "map_of (adjacentList g) ?c = Some ns"
        by (auto simp: has_vertex_iff[symmetric] has_vertex_def)
      have hv: "has_vertex g ?c" using ck by (simp add: has_vertex_iff)
      have edges: "\<forall>(n, w) \<in> set ns. edge g ?c n \<and> (\<exists>x. w = Some x \<and> float_range x)"
      proof (intro ballI, clarify)
        fix n w assume nw: "(n, w) \<in> set ns"
        from ns have "(?c, ns) \<in> set (adjacentList g)" by (rule map_of_SomeD)
        with nw have se: "(?c, n, w) \<in> stored_edges g" by (auto simp: stored_edges_iff)
        with hw obtain x where wx: "w = Some x" by (auto simp: has_weights_def)
        with se fw have "float_range x" by (auto simp: float_weights_def)
        moreover from nw ns have "edge g ?c n" by (force simp: edge_def)
        ultimately show "edge g ?c n \<and> (\<exists>x. w = Some x \<and> float_range x)" using wx by simp
      qed
      from relax_inv[OF wf ord inv1 hv edges] obtain s' where
        s': "relax lt ?c ns (D, P, Q1) = Inr s'" "dijkstra_inv g start s'" by blast
      from "1.IH"(2)[OF False pop refl refl notend ns s'(1) wf hw fw ord s'(2) nl]
      have "dijkstra_loop truthy lt g end s' = Some (Inr [])" .
      with False pop notend ns s'(1) show ?thesis
        by (subst dijkstra_loop.simps) (simp add: Let_def)
    qed
  qed
qed

lemma dijkstra_init_Cons:
  "dijkstra_init lt start (vertex # rest) (D, P, Q) =
     (case heappush lt Q (if vertex = start then Finite 0 else Infinite, vertex) of
        Inl e \<Rightarrow> Inl e
      | Inr Q1 \<Rightarrow>
          dijkstra_init lt start rest
            (D(vertex \<mapsto> (if vertex = start then Finite 0 else Infinite)), P(vertex \<mapsto> None),
             Q1))"
  by simp

lemma dijkstra_init_step:
  "dijkstra_init lt start (vertex # rest) (D, P, Q) = Inr s \<Longrightarrow>
     \<exists>Q1. heappush lt Q (if vertex = start then Finite 0 else Infinite, vertex) = Inr Q1 \<and>
       dijkstra_init lt start rest
         (D(vertex \<mapsto> (if vertex = start then Finite 0 else Infinite)), P(vertex \<mapsto> None), Q1)
       = Inr s"
  by (simp only: dijkstra_init_Cons split: sum.splits) auto

lemma dijkstra_init_dom:
  "dijkstra_init lt start vs (D, P, Q) = Inr (D', P', Q') \<Longrightarrow>
     dom D' = dom D \<union> set vs \<and> dom P' = dom P \<union> set vs \<and>
     snd ` set Q' \<subseteq> snd ` set Q \<union> set vs"
proof (induction vs arbitrary: D P Q)
  case Nil
  then show ?case by simp
next
  case (Cons vertex rest)
  let ?d = "if vertex = start then Finite 0 else Infinite"
  from dijkstra_init_step[OF Cons.prems] obtain Q1 where
    push: "heappush lt Q (?d, vertex) = Inr Q1"
    and r: "dijkstra_init lt start rest (D(vertex \<mapsto> ?d), P(vertex \<mapsto> None), Q1)
              = Inr (D', P', Q')" by blast
  from heappush_result[OF push] have "set Q1 \<subseteq> insert (?d, vertex) (set Q)" by simp
  then have q1: "snd ` set Q1 \<subseteq> insert vertex (snd ` set Q)" by auto
  from Cons.IH[OF r]
  have d: "dom D' = dom (D(vertex \<mapsto> ?d)) \<union> set rest"
    and p: "dom P' = dom (P(vertex \<mapsto> None)) \<union> set rest"
    and q: "snd ` set Q' \<subseteq> snd ` set Q1 \<union> set rest" by blast+
  from d have "dom D' = dom D \<union> set (vertex # rest)" by auto
  moreover from p have "dom P' = dom P \<union> set (vertex # rest)" by auto
  moreover from q q1 have "snd ` set Q' \<subseteq> snd ` set Q \<union> set (vertex # rest)" by auto
  ultimately show ?case by blast
qed

lemma dijkstra_init_finite:
  "dijkstra_init lt start vs (D, P, Q) = Inr (D', P', Q') \<Longrightarrow> D' v = Some (Finite x) \<Longrightarrow>
     D v = Some (Finite x) \<or> (v = start \<and> start \<in> set vs)"
proof (induction vs arbitrary: D P Q)
  case Nil
  then show ?case by simp
next
  case (Cons vertex rest)
  from dijkstra_init_step[OF Cons.prems(1)] obtain Q1 where
    r: "dijkstra_init lt start rest
          (D(vertex \<mapsto> (if vertex = start then Finite 0 else Infinite)), P(vertex \<mapsto> None), Q1)
        = Inr (D', P', Q')" by blast
  from Cons.IH[OF r Cons.prems(2)] show ?case
    by (auto split: if_splits)
qed

lemma dijkstra_init_previous:
  "dijkstra_init lt start vs (D, P, Q) = Inr (D', P', Q') \<Longrightarrow> P' v = Some (Some u) \<Longrightarrow>
     P v = Some (Some u)"
proof (induction vs arbitrary: D P Q)
  case Nil
  then show ?case by simp
next
  case (Cons vertex rest)
  from dijkstra_init_step[OF Cons.prems(1)] obtain Q1 where
    r: "dijkstra_init lt start rest
          (D(vertex \<mapsto> (if vertex = start then Finite 0 else Infinite)), P(vertex \<mapsto> None), Q1)
        = Inr (D', P', Q')" by blast
  from Cons.IH[OF r Cons.prems(2)] show ?case
    by (auto split: if_splits)
qed

lemma dijkstra_init_ok:
  "orderable lt V \<Longrightarrow> set vs \<subseteq> V \<Longrightarrow> snd ` set Q \<subseteq> V \<Longrightarrow>
     \<exists>s. dijkstra_init lt start vs (D, P, Q) = Inr s"
proof (induction vs arbitrary: D P Q)
  case Nil
  then show ?case by simp
next
  case (Cons vertex rest)
  let ?d = "if vertex = start then Finite 0 else Infinite"
  from Cons.prems(2) have v: "snd (?d, vertex) \<in> V" and rs: "set rest \<subseteq> V" by simp_all
  from heappush_ok[OF Cons.prems(1,3) v] obtain Q1 where
    push: "heappush lt Q (?d, vertex) = Inr Q1" by blast
  from heappush_result[OF push] have "set Q1 \<subseteq> insert (?d, vertex) (set Q)" by simp
  then have "snd ` set Q1 \<subseteq> insert vertex (snd ` set Q)" by auto
  moreover from v Cons.prems(3) have "insert vertex (snd ` set Q) \<subseteq> V" by simp
  ultimately have "snd ` set Q1 \<subseteq> V" by (rule subset_trans)
  from Cons.IH[OF Cons.prems(1) rs this] push show ?case
    by (simp only: dijkstra_init_Cons) simp
qed

lemma dijkstra_inv_init:
  "orderable lt (set (getVertices g)) \<Longrightarrow>
     \<exists>s. dijkstra_init lt start (getVertices g) (Map.empty, Map.empty, []) = Inr s \<and>
       dijkstra_inv g start s"
proof -
  assume ord: "orderable lt (set (getVertices g))"
  from dijkstra_init_ok[OF ord subset_refl,
      where Q = "[]" and D = Map.empty and P = Map.empty and start = start]
  obtain s where
    s: "dijkstra_init lt start (getVertices g) (Map.empty, Map.empty, []) = Inr s" by auto
  obtain D P Q where dpq: "s = (D, P, Q)" by (cases s)
  note i = s[unfolded dpq]
  from dijkstra_init_dom[OF i]
  have 1: "dom D = set (getVertices g)" and 2: "dom P = set (getVertices g)"
    and 3: "snd ` set Q \<subseteq> set (getVertices g)" by simp_all
  have 4: "linked g start v" if "D v = Some (Finite x)" for v x
  proof -
    from dijkstra_init_finite[OF i that] have "v = start \<and> start \<in> set (getVertices g)" by simp
    then show ?thesis by (simp add: linked_start has_vertex_iff)
  qed
  have 5: "P v \<noteq> Some (Some u)" for v u
    using dijkstra_init_previous[OF i, of v u] by auto
  have "\<forall>v x. D v = Some (Finite x) \<longrightarrow> linked g start v" using 4 by blast
  moreover have "\<forall>v u. P v = Some (Some u) \<longrightarrow> linked g start v" using 5 by blast
  ultimately have "dijkstra_inv g start s" unfolding dpq dijkstra_inv_def using 1 2 3 by simp
  with s show ?thesis by blast
qed

lemma dijkstra_unreached:
  "wf_graph g \<Longrightarrow> has_weights g \<Longrightarrow> float_weights g \<Longrightarrow> orderable lt (set (getVertices g)) \<Longrightarrow>
     \<not> linked g start end \<Longrightarrow> dijkstra truthy lt g start end = Some (Inr [start])"
proof -
  assume wf: "wf_graph g" and hw: "has_weights g" and fw: "float_weights g"
    and ord: "orderable lt (set (getVertices g))" and nl: "\<not> linked g start end"
  from dijkstra_inv_init[OF ord] obtain s where
    s: "dijkstra_init lt start (getVertices g) (Map.empty, Map.empty, []) = Inr s"
    and inv: "dijkstra_inv g start s" by blast
  from dijkstra_loop_unreached[OF wf hw fw ord inv nl]
  have "dijkstra_loop truthy lt g end s = Some (Inr [])" .
  with s show ?thesis by (simp add: dijkstra_def)
qed

lemma no_path_if_bfs_none:
  assumes "wf_graph g" "has_vertex g start" "start \<noteq> end"
    and "bfs_shortest_path g start end = Inr None"
  shows "\<not> (\<exists>p. path_between g start end p)"
proof
  assume "\<exists>p. path_between g start end p"
  then obtain p where p: "path_between g start end p" by blast
  have "2 \<le> length p"
  proof (cases p)
    case Nil
    with p show ?thesis by (simp add: path_between_def)
  next
    case (Cons a list)
    with p assms(3) show ?thesis by (cases list) (auto simp: path_between_def)
  qed
  moreover from bfs_shortest_path_correct[OF assms(1,2), of "end"] assms(4)
  have "shortest_or_none g start end None" by simp
  ultimately show False using p by (auto simp: shortest_or_none_def)
qed

subsection \<open>The exceptions of \<^verbatim>\<open>dijkstra\<close>\<close>

lemma orderable_int_less: "orderable int_less V"
  by (simp add: orderable_def int_less_def)

lemma orderable_str_less: "orderable str_less V"
  by (simp add: orderable_def str_less_def)

text \<open>
  Two exceptions can leave \<^verbatim>\<open>dijkstra\<close> on a weighted graph built by the mutators, also
  when \<^verbatim>\<open>end\<close> is not reached. In the graph with the vertices \<^verbatim>\<open>'A'\<close>, \<^verbatim>\<open>'B'\<close> and \<^verbatim>\<open>3\<close>
  the queue compares \<^verbatim>\<open>[inf, 3]\<close> with \<^verbatim>\<open>[inf, 'B']\<close>, or with \<^verbatim>\<open>[inf, 'A']\<close> when
  \<^verbatim>\<open>start\<close> is unknown, and \<^verbatim>\<open>dijkstra\<close> raises \<^verbatim>\<open>TypeError\<close>. In the graph with the
  edge 3 \<rightarrow> 4 of weight \<open>2 ^ 1024\<close> the vertex 3 is popped with the distance infinity, and
  \<^verbatim>\<open>dijkstra\<close> raises \<^verbatim>\<open>OverflowError\<close>.
\<close>

lemma dijkstra_mixed_keys:
  "has_vertex mixed_graph (StrKey ''A'') \<and> has_vertex mixed_graph (IntKey 3) \<and>
   dijkstra key_truthy key_less mixed_graph (StrKey ''A'') (IntKey 3) = Some (Inl TypeError) \<and>
   \<not> has_vertex mixed_graph (IntKey 7) \<and>
   dijkstra key_truthy key_less mixed_graph (IntKey 7) (IntKey 3) = Some (Inl TypeError)"
  by code_simp

lemma dijkstra_huge_weight:
  "has_vertex huge_graph 1 \<and> has_vertex huge_graph 9 \<and>
   dijkstra truthy_int int_less huge_graph 1 9 = Some (Inl OverflowError) \<and>
   \<not> has_vertex huge_graph 7 \<and>
   dijkstra truthy_int int_less huge_graph 7 9 = Some (Inl OverflowError)"
  by code_simp

subsection \<open>Claim C5: \<^verbatim>\<open>dijkstra\<close> with an unreachable \<^verbatim>\<open>end\<close>\<close>

text \<open>
  C5 as stated fails: \<^verbatim>\<open>dijkstra\<close> ends with \<^verbatim>\<open>result.insert(0, start)\<close> on every way
  out of the loop, so for an unreachable \<^verbatim>\<open>end\<close> it returns the non-empty list
  \<^verbatim>\<open>[start]\<close>. In the graph with the edges 1 \<rightarrow> 2 and 3 \<rightarrow> 4 no path leads from 1 to 4
  (the breadth-first search finds none), and \<^verbatim>\<open>dijkstra(1, 4)\<close> returns \<^verbatim>\<open>[1]\<close>.
\<close>

theorem dijkstra_unreachable_counterexample:
  "has_vertex split_graph 1 \<and> has_vertex split_graph 4 \<and>
   bfs_shortest_path split_graph 1 4 = Inr None \<and>
   dijkstra truthy_int int_less split_graph 1 4 = Some (Inr [1])"
  by code_simp

text \<open>
  C5, amended: on every weighted graph built by the mutators (every stored edge has an
  integer weight) whose weights all round to a float and whose vertices can all be
  compared with each other, and that contains \<^verbatim>\<open>start\<close> and \<^verbatim>\<open>end\<close>: if \<^verbatim>\<open>end\<close> is
  unreachable from \<^verbatim>\<open>start\<close> then \<^verbatim>\<open>dijkstra(start, end)\<close> completes without raising
  and returns the one-element list \<^verbatim>\<open>[start]\<close>.
\<close>

theorem dijkstra_unreachable_end:
  "wf_graph g \<Longrightarrow> has_weights g \<Longrightarrow> float_weights g \<Longrightarrow>
     orderable lt (set (getVertices g)) \<Longrightarrow> has_vertex g start \<Longrightarrow> has_vertex g end \<Longrightarrow>
     \<not> (\<exists>p. path_between g start end p) \<Longrightarrow>
     dijkstra truthy lt g start end = Some (Inr [start])"
  by (rule dijkstra_unreached) (simp_all add: linked_def)

theorem dijkstra_unreachable_end_witness:
  "wf_graph (run_calls (Graph_init False True :: (string, int) graph)
       [AddEdge ''A'' ''B'' (Some 4), AddVertex ''C'']) \<and>
   has_weights (run_calls (Graph_init False True :: (string, int) graph)
       [AddEdge ''A'' ''B'' (Some 4), AddVertex ''C'']) \<and>
   float_weights (run_calls (Graph_init False True :: (string, int) graph)
       [AddEdge ''A'' ''B'' (Some 4), AddVertex ''C'']) \<and>
   orderable str_less (set (getVertices (run_calls (Graph_init False True :: (string, int) graph)
       [AddEdge ''A'' ''B'' (Some 4), AddVertex ''C'']))) \<and>
   has_vertex (run_calls (Graph_init False True :: (string, int) graph)
       [AddEdge ''A'' ''B'' (Some 4), AddVertex ''C'']) ''A'' \<and>
   has_vertex (run_calls (Graph_init False True :: (string, int) graph)
       [AddEdge ''A'' ''B'' (Some 4), AddVertex ''C'']) ''C'' \<and>
   \<not> (\<exists>p. path_between (run_calls (Graph_init False True :: (string, int) graph)
       [AddEdge ''A'' ''B'' (Some 4), AddVertex ''C'']) ''A'' ''C'' p) \<and>
   dijkstra truthy_str str_less (run_calls (Graph_init False True :: (string, int) graph)
       [AddEdge ''A'' ''B'' (Some 4), AddVertex ''C'']) ''A'' ''C'' = Some (Inr [''A''])"
proof -
  let ?g = "run_calls (Graph_init False True :: (string, int) graph)
       [AddEdge ''A'' ''B'' (Some 4), AddVertex ''C'']"
  have wf: "wf_graph ?g" by (rule wf_graph_built)
  have hw: "has_weights ?g" by (rule has_weights_built)
  have fw: "float_weights ?g" by code_simp
  have ord: "orderable str_less (set (getVertices ?g))" by (rule orderable_str_less)
  have a: "has_vertex ?g ''A''" by code_simp
  have c: "has_vertex ?g ''C''" by code_simp
  have "bfs_shortest_path ?g ''A'' ''C'' = Inr None" by code_simp
  from no_path_if_bfs_none[OF wf a _ this]
  have n: "\<not> (\<exists>p. path_between ?g ''A'' ''C'' p)" by simp
  from dijkstra_unreachable_end[OF wf hw fw ord a c n, of truthy_str] wf hw fw ord a c n
  show ?thesis by blast
qed

subsection \<open>Claim C6: operations on an unknown vertex\<close>

text \<open>
  C6 as stated fails for \<^verbatim>\<open>dijkstra\<close> and for \<^verbatim>\<open>dfs\<close>. \<^verbatim>\<open>dijkstra\<close> never looks
  \<^verbatim>\<open>start\<close> up: in the graph with the edges 1 \<rightarrow> 2 and 3 \<rightarrow> 4 the vertex 7 is unknown and
  \<^verbatim>\<open>dijkstra(7, 4)\<close> returns \<^verbatim>\<open>[7]\<close>. \<^verbatim>\<open>dfs\<close> leaves its loop at once when \<^verbatim>\<open>start\<close>
  is \<^verbatim>\<open>end\<close>: \<^verbatim>\<open>dfs(7, 7, 1)\<close> returns \<^verbatim>\<open>[7]\<close>.
\<close>

theorem unknown_start_counterexample:
  "\<not> has_vertex split_graph 7 \<and>
   dijkstra truthy_int int_less split_graph 7 4 = Some (Inr [7]) \<and>
   dfs split_graph 7 7 1 = Some (Inr [7])"
  by code_simp

text \<open>
  C6, amended: for a vertex that is not in the graph, \<^verbatim>\<open>getNeighbors\<close> raises
  \<^verbatim>\<open>KeyError\<close> (NotFound), and so do \<^verbatim>\<open>bfs\<close>, \<^verbatim>\<open>bfs_shortest_path\<close> and
  \<^verbatim>\<open>dfs_shortest_path\<close> called with it as \<^verbatim>\<open>start\<close>, and \<^verbatim>\<open>dfs\<close> when \<^verbatim>\<open>end\<close> differs
  from \<^verbatim>\<open>start\<close>; \<^verbatim>\<open>dfs(start, start, avoid)\<close> returns \<^verbatim>\<open>[start]\<close>. This holds for every
  graph \<open>g\<close>, whatever its vertices and weights are. \<^verbatim>\<open>dijkstra\<close> with an unknown
  \<^verbatim>\<open>start\<close> returns \<^verbatim>\<open>[start]\<close> on every weighted graph \<open>h\<close> built by the mutators whose
  weights all round to a float and whose vertices can all be compared with each other.
\<close>

theorem unknown_start:
  "\<not> has_vertex g start \<Longrightarrow>
     getNeighbors g start = Inl KeyError \<and>
     bfs g start = Inl KeyError \<and>
     bfs_shortest_path g start end = Inl KeyError \<and>
     dfs_shortest_path g start end = Inl KeyError \<and>
     (start \<noteq> end \<longrightarrow> dfs g start end avoid = Some (Inl KeyError)) \<and>
     dfs g start start avoid = Some (Inr [start]) \<and>
     (wf_graph h \<and> has_weights h \<and> float_weights h \<and> orderable lt (set (getVertices h)) \<and>
      \<not> has_vertex h s \<longrightarrow> dijkstra truthy lt h s e = Some (Inr [s]))"
proof -
  assume u: "\<not> has_vertex g start"
  then have m: "map_of (adjacentList g) start = None" by (simp add: has_vertex_def)
  have 1: "getNeighbors g start = Inl KeyError" using m by (simp add: getNeighbors_def)
  have 2: "bfs g start = Inl KeyError" using m by (simp add: bfs_def)
  have 3: "bfs_shortest_path g start end = Inl KeyError"
    using m by (simp add: bfs_shortest_path_def)
  have 4: "dfs_shortest_path g start end = Inl KeyError"
    unfolding dfs_shortest_path_def using m
    by (subst dfs_shortest_path_loop.simps) simp
  have 5: "dfs g start end avoid = Some (Inl KeyError)" if "start \<noteq> end"
  proof -
    have "dfs_loop g end avoid [start \<mapsto> None] [start] = Inl KeyError"
      using m that by (subst dfs_loop.simps) simp
    then show ?thesis by (simp add: dfs_def)
  qed
  have 6: "dfs g start start avoid = Some (Inr [start])"
  proof -
    have "dfs_loop g start avoid [start \<mapsto> None] [start] = Inr [start \<mapsto> None]"
      by (subst dfs_loop.simps) simp
    moreover have "dfs_route [start \<mapsto> None] start start [start] = Some (Inr [start])"
      by (subst dfs_route.simps) simp
    ultimately show ?thesis by (simp add: dfs_def)
  qed
  have 7: "dijkstra truthy lt h s e = Some (Inr [s])"
    if "wf_graph h \<and> has_weights h \<and> float_weights h \<and> orderable lt (set (getVertices h)) \<and>
      \<not> has_vertex h s"
    using that by (intro dijkstra_unreached) (simp_all add: linked_def)
  from 1 2 3 4 5 6 7 show ?thesis by blast
qed

theorem unknown_start_witness:
  "\<not> has_vertex split_graph 7 \<and>
   getNeighbors split_graph 7 = Inl KeyError \<and>
   bfs split_graph 7 = Inl KeyError \<and>
   bfs_shortest_path split_graph 7 4 = Inl KeyError \<and>
   dfs_shortest_path split_graph 7 4 = Inl KeyError \<and>
   (7::int) \<noteq> 4 \<and> dfs split_graph 7 4 1 = Some (Inl KeyError) \<and>
   dfs split_graph 7 7 1 = Some (Inr [7]) \<and>
   wf_graph split_graph \<and> has_weights split_graph \<and> float_weights split_graph \<and>
   orderable int_less (set (getVertices split_graph)) \<and>
   dijkstra truthy_int int_less split_graph 7 4 = Some (Inr [7])"
proof -
  have u: "\<not> has_vertex split_graph 7" by code_simp
  have wf: "wf_graph split_graph" unfolding split_graph_def by (rule wf_graph_built)
  have hw: "has_weights split_graph" unfolding split_graph_def by (rule has_weights_built)
  have fw: "float_weights split_graph" by code_simp
  have ord: "orderable int_less (set (getVertices split_graph))" by (rule orderable_int_less)
  from unknown_start[OF u, of 4 1 split_graph int_less 7 truthy_int 4] u wf hw fw ord
  show ?thesis by simp
qed

end
